theory Spec2Isabelle
  imports Main "HOL-Library.Sublist"
begin

section \<open>Strings and character classes\<close>

text \<open>
  A JavaScript string is modelled as a \<open>string\<close>: a list of characters with codes
  0 to 255. \<open>upper_char\<close> is the upper-casing of the ASCII letters, which leaves the
  other ASCII characters as they are.
\<close>

definition lower_letters :: string where
  "lower_letters = ''abcdefghijklmnopqrstuvwxyz''"

definition upper_letters :: string where
  "upper_letters = ''ABCDEFGHIJKLMNOPQRSTUVWXYZ''"

definition digits :: string where
  "digits = ''0123456789''"

definition upper_char :: "char \<Rightarrow> char" where
  "upper_char c = (case map_of (zip lower_letters upper_letters) c of None \<Rightarrow> c | Some u \<Rightarrow> u)"

definition lower_char :: "char \<Rightarrow> char" where
  "lower_char c = (case map_of (zip upper_letters lower_letters) c of None \<Rightarrow> c | Some l \<Rightarrow> l)"

text \<open>
  \<open>s.toUpperCase()\<close> converts a string character by character. The upper case of the
  characters above 127 comes from the Unicode tables of the JavaScript runtime, which
  are no part of this program: they are the parameter \<open>hi\<close>, which gives the upper case
  of such a character as a string (\<open>SS\<close> for the sharp s, for instance). Nothing is
  assumed about \<open>hi\<close>: what is proved holds for every table. Two characters of the
  range, the micro sign and the y with diaeresis, have their upper case beyond code
  255: for them \<open>hi\<close> can only give characters of the range that stand for it. A mode
  name of a call site is made of ASCII characters, so this changes no comparison of
  the rewriter.
\<close>

definition toUpperCase :: "(char \<Rightarrow> string) \<Rightarrow> string \<Rightarrow> string" where
  "toUpperCase hi s = concat (map (\<lambda>c. if digit7 c then hi c else [upper_char c]) s)"

text \<open>The class \<open>[A-Z]\<close>.\<close>

definition is_AZ :: "char \<Rightarrow> bool" where
  "is_AZ c = (c \<in> set upper_letters)"

text \<open>The class \<open>[A-Z0-9_]\<close>.\<close>

definition is_AZ09u :: "char \<Rightarrow> bool" where
  "is_AZ09u c = (is_AZ c \<or> c \<in> set digits \<or> c = CHR ''_'')"

text \<open>The word characters of \<open>\b\<close>: \<open>[A-Za-z0-9_]\<close>.\<close>

definition is_word :: "char \<Rightarrow> bool" where
  "is_word c = (is_AZ09u c \<or> c \<in> set lower_letters)"

text \<open>The class \<open>\s\<close>, on the characters below 256: tab, line feed, vertical tab, form
  feed, carriage return, space and the no-break space.\<close>

definition is_space :: "char \<Rightarrow> bool" where
  "is_space c = (c \<in> set [CHR 0x09, CHR 0x0A, CHR 0x0B, CHR 0x0C, CHR 0x0D, CHR 0x20, CHR 0xA0])"

section \<open>A backtracking regular-expression matcher\<close>

text \<open>
  The patterns of the source are written as values of \<open>re\<close>. \<open>In P\<close> is a character
  class, \<open>NotIn P\<close> an inverted one, \<open>Grp k r\<close> the capturing group number \<open>k\<close>,
  \<open>WordB\<close> the assertion \<open>\b\<close> and \<open>Eol\<close> the assertion \<open>$\<close> (without the
  multiline flag). \<open>Star\<close> is the greedy \<open>*\<close>.
\<close>

datatype re =
    Lit char
  | In "char \<Rightarrow> bool"
  | NotIn "char \<Rightarrow> bool"
  | Eps
  | Seq re re
  | Alt re re
  | Star re
  | Grp nat re
  | WordB
  | Eol

definition Plus :: "re \<Rightarrow> re" where
  "Plus r = Seq r (Star r)"

definition Opt :: "re \<Rightarrow> re" where
  "Opt r = Alt r Eps"

definition seqs :: "re list \<Rightarrow> re" where
  "seqs rs = foldr Seq rs Eps"

definition lits :: "string \<Rightarrow> re" where
  "lits s = seqs (map Lit s)"

text \<open>
  A matcher state: the character before the current position (\<open>None\<close> at the start of
  the input), the rest of the input, and the captures so far, the latest first:
  \<open>map_of g k\<close> is the text of group \<open>k\<close>, \<open>None\<close> when the group took no part.
\<close>

type_synonym caps = "(nat \<times> string) list"
type_synonym mstate = "char option \<times> string \<times> caps"

definition rest :: "mstate \<Rightarrow> string" where
  "rest st = fst (snd st)"

text \<open>
  Every matcher returns the list of the states it can end in, in the order in which a
  backtracking engine tries them; the match that the engine reports is the head of the
  list. The greedy star tries one more iteration first and the empty iteration last; an
  iteration that consumes nothing is rejected, as in ECMAScript's RepeatMatcher.
  ECMAScript also clears the groups inside a star at the start of each iteration; no
  pattern of this program has a group inside a star.
\<close>

function star :: "(mstate \<Rightarrow> mstate list) \<Rightarrow> mstate \<Rightarrow> mstate list" where
  "star f st =
     concat (map (\<lambda>st'. if length (rest st') < length (rest st) then star f st' else [])
                 (f st)) @ [st]"
  by pat_completeness auto
termination
  by (relation "measure (\<lambda>(f, st). length (rest st))") auto

declare star.simps [simp del]

definition char_matches :: "bool \<Rightarrow> char \<Rightarrow> char \<Rightarrow> bool" where
  "char_matches ic c x = (if ic then upper_char x = upper_char c else x = c)"

definition class_matches :: "bool \<Rightarrow> (char \<Rightarrow> bool) \<Rightarrow> char \<Rightarrow> bool" where
  "class_matches ic P x = (if ic then P x \<or> P (upper_char x) \<or> P (lower_char x) else P x)"

definition step_char :: "(char \<Rightarrow> bool) \<Rightarrow> mstate \<Rightarrow> mstate list" where
  "step_char ok st =
     (case st of
        (p, [], g) \<Rightarrow> []
      | (p, x # xs, g) \<Rightarrow> if ok x then [(Some x, xs, g)] else [])"

definition at_word_boundary :: "char option \<Rightarrow> string \<Rightarrow> bool" where
  "at_word_boundary p s =
     ((case p of None \<Rightarrow> False | Some c \<Rightarrow> is_word c) \<noteq>
      (case s of [] \<Rightarrow> False | x # xs \<Rightarrow> is_word x))"

primrec rmatch :: "re \<Rightarrow> bool \<Rightarrow> mstate \<Rightarrow> mstate list" where
  "rmatch (Lit c) ic st = step_char (char_matches ic c) st"
| "rmatch (In P) ic st = step_char (class_matches ic P) st"
| "rmatch (NotIn P) ic st = step_char (\<lambda>x. \<not> class_matches ic P x) st"
| "rmatch Eps ic st = [st]"
| "rmatch (Seq a b) ic st = concat (map (rmatch b ic) (rmatch a ic st))"
| "rmatch (Alt a b) ic st = rmatch a ic st @ rmatch b ic st"
| "rmatch (Star a) ic st = star (rmatch a ic) st"
| "rmatch (Grp k a) ic st =
     map (\<lambda>(p', s', g'). (p', s', (k, take (length (rest st) - length s') (rest st)) # g'))
         (rmatch a ic st)"
| "rmatch WordB ic st = (if at_word_boundary (fst st) (rest st) then [st] else [])"
| "rmatch Eol ic st = (if rest st = [] then [st] else [])"

text \<open>
  \<open>search\<close> is RegExpBuiltinExec: the pattern is tried at the current position, then
  one character further, up to the end of the input. The result holds the text before
  the match, the matched text, the captures, the last character before the end of the
  match and the text after the match.
\<close>

type_synonym found = "string \<times> string \<times> caps \<times> char option \<times> string"

fun search :: "re \<Rightarrow> bool \<Rightarrow> char option \<Rightarrow> string \<Rightarrow> found option" where
  "search r ic p s =
     (case rmatch r ic (p, s, []) of
        (p', s', g) # _ \<Rightarrow> Some ([], take (length s - length s') s, g, p', s')
      | [] \<Rightarrow>
          (case s of
             [] \<Rightarrow> None
           | x # xs \<Rightarrow>
               (case search r ic (Some x) xs of
                  None \<Rightarrow> None
                | Some (b, m, g, p', a) \<Rightarrow> Some (x # b, m, g, p', a))))"

declare search.simps [simp del]

text \<open>\<open>regex.test(s)\<close> for a pattern without the global flag.\<close>

definition test :: "re \<Rightarrow> bool \<Rightarrow> string \<Rightarrow> bool" where
  "test r ic s = (search r ic None s \<noteq> None)"

section \<open>The matcher only moves forward\<close>

text \<open>
  \<open>reaches st st'\<close>: the state \<open>st'\<close> lies at or after \<open>st\<close> in the same input, and
  its previous character is the last one consumed.
\<close>

definition last_char :: "char option \<Rightarrow> string \<Rightarrow> char option" where
  "last_char p u = (if u = [] then p else Some (last u))"

definition reaches :: "mstate \<Rightarrow> mstate \<Rightarrow> bool" where
  "reaches st st' = (\<exists>u. rest st = u @ rest st' \<and> fst st' = last_char (fst st) u)"

lemma reaches_refl: "reaches st st"
  by (simp add: reaches_def last_char_def)

lemma last_char_append: "last_char (last_char p u) v = last_char p (u @ v)"
  by (simp add: last_char_def)

lemma reaches_trans: "reaches a b \<Longrightarrow> reaches b c \<Longrightarrow> reaches a c"
  unfolding reaches_def
  by (metis append.assoc last_char_append)


lemma step_char_reaches: "st' \<in> set (step_char ok st) \<Longrightarrow> reaches st st'"
proof -
  assume a: "st' \<in> set (step_char ok st)"
  obtain p s g where st: "st = (p, s, g)" by (cases st) auto
  from a st obtain x xs where "s = x # xs" "st' = (Some x, xs, g)"
    by (auto simp: step_char_def split: list.splits if_splits)
  then have "rest st = [x] @ rest st' \<and> fst st' = last_char (fst st) [x]"
    using st by (simp add: rest_def last_char_def)
  then show ?thesis unfolding reaches_def by blast
qed

lemma star_reaches:
  "(\<And>a b. b \<in> set (f a) \<Longrightarrow> reaches a b) \<Longrightarrow> st' \<in> set (star f st) \<Longrightarrow> reaches st st'"
proof (induction f st arbitrary: st' rule: star.induct)
  case (1 f st)
  from "1.prems"(2) have "st' = st \<or> (\<exists>m \<in> set (f st). length (rest m) < length (rest st) \<and> st' \<in> set (star f m))"
    by (subst (asm) star.simps) (auto split: if_splits)
  then show ?case
  proof
    assume "st' = st" then show ?thesis by (simp add: reaches_refl)
  next
    assume "\<exists>m \<in> set (f st). length (rest m) < length (rest st) \<and> st' \<in> set (star f m)"
    then obtain m where m: "m \<in> set (f st)" "length (rest m) < length (rest st)" "st' \<in> set (star f m)" by blast
    have "reaches m st'" using "1.IH"[OF m(1) m(2) "1.prems"(1) m(3)] .
    moreover have "reaches st m" using "1.prems"(1) m(1) by blast
    ultimately show ?thesis using reaches_trans by blast
  qed
qed

lemma rmatch_reaches: "st' \<in> set (rmatch r ic st) \<Longrightarrow> reaches st st'"
proof (induction r arbitrary: st st')
  case (Seq a b)
  from Seq.prems obtain m where "m \<in> set (rmatch a ic st)" "st' \<in> set (rmatch b ic m)"
    by auto
  then show ?case using Seq.IH reaches_trans by blast
next
  case (Star a)
  then show ?case using star_reaches[of "rmatch a ic"] by auto
next
  case (Grp k a)
  from Grp.prems obtain p' s' g' where m: "(p', s', g') \<in> set (rmatch a ic st)"
    and st': "st' = (p', s', (k, take (length (rest st) - length s') (rest st)) # g')"
    by auto
  have "reaches st (p', s', g')" using Grp.IH m by blast
  then show ?case using st' by (simp add: reaches_def rest_def)
qed (auto simp: step_char_reaches reaches_refl split: if_splits)


lemma rmatch_hd_split:
  assumes "rmatch r ic (p, s, g0) = (p', a, g) # rs"
  shows "\<exists>u. s = u @ a \<and> p' = last_char p u"
proof -
  have "reaches (p, s, g0) (p', a, g)"
    using rmatch_reaches[of "(p', a, g)" r ic "(p, s, g0)"] assms by simp
  then show ?thesis by (auto simp: reaches_def rest_def)
qed

lemma search_SomeD:
  "search r ic p s = Some (b, m, g, p', a) \<Longrightarrow>
     s = b @ m @ a \<and> p' = last_char p (b @ m) \<and>
     (\<exists>rs. rmatch r ic (last_char p b, m @ a, []) = (p', a, g) # rs)"
proof (induction s arbitrary: p b)
  case Nil
  from Nil obtain rs where h: "rmatch r ic (p, [], []) = (p', a, g) # rs" "b = []" "m = []"
    by (subst (asm) search.simps) (auto split: list.splits)
  from rmatch_hd_split[OF h(1)] have "a = []" "p' = p" by (auto simp: last_char_def)
  with h show ?case by (simp add: last_char_def)
next
  case (Cons x xs)
  show ?case
  proof (cases "rmatch r ic (p, x # xs, [])")
    case Nil
    with Cons.prems obtain b' where b: "b = x # b'" "search r ic (Some x) xs = Some (b', m, g, p', a)"
      by (subst (asm) search.simps) (auto split: option.splits)
    from Cons.IH[OF b(2)] b(1) show ?thesis by (auto simp: last_char_def)
  next
    case (Cons st rs)
    with Cons.prems have e: "st = (p', a, g)" "b = []" "m = take (length (x # xs) - length a) (x # xs)"
      by (subst (asm) search.simps; auto split: prod.splits)+
    from rmatch_hd_split[of r ic p "x # xs" "[]" p' a g rs] Cons e
    obtain u where u: "x # xs = u @ a" "p' = last_char p u" by auto
    then have "m = u" using e by simp
    then show ?thesis using e Cons u by (auto simp: last_char_def)
  qed
qed


text \<open>A match at a later position makes the search succeed.\<close>

lemma search_finds:
  "rmatch r ic (last_char p s1, s2, []) \<noteq> [] \<Longrightarrow> search r ic p (s1 @ s2) \<noteq> None"
proof (induction s1 arbitrary: p)
  case Nil
  then show ?case
    by (subst search.simps) (auto simp: last_char_def split: list.splits)
next
  case (Cons x xs)
  have "last_char (Some x) xs = last_char p (x # xs)" by (simp add: last_char_def)
  with Cons.prems have "search r ic (Some x) (xs @ s2) \<noteq> None"
    using Cons.IH[of "Some x"] by simp
  then show ?case
    by (subst search.simps) (auto split: list.splits)
qed

section \<open>Global replacement\<close>

text \<open>
  \<open>String.prototype.replace\<close> with a pattern that has the global flag collects the
  matches from left to right, each search starting where the last match ended (one
  character further after an empty match), and then builds the result from the text
  between the matches and the replacement of each match.
\<close>

datatype item = Gap string | Hit string caps

function match_all :: "re \<Rightarrow> bool \<Rightarrow> char option \<Rightarrow> string \<Rightarrow> item list" where
  "match_all r ic p s =
     (case search r ic p s of
        None \<Rightarrow> [Gap s]
      | Some (b, m, g, p', a) \<Rightarrow>
          Gap b # Hit m g #
          (if m = [] then (case a of [] \<Rightarrow> [] | x # xs \<Rightarrow> Gap [x] # match_all r ic (Some x) xs)
           else match_all r ic p' a))"
  by pat_completeness auto
termination
proof (relation "measure (\<lambda>(r, ic, p, s). length s)")
  show "wf (measure (\<lambda>(r, ic, p, s). length s))" by simp
next
  fix r ic p s x2 b y m ya g yb p' a x xs
  assume "search r ic p s = Some x2" "(b, y) = x2" "(m, ya) = y" "(g, yb) = ya" "(p', a) = yb"
    "m = []" "a = x # xs"
  then have "search r ic p s = Some (b, m, g, p', a)" by simp
  from search_SomeD[OF this] \<open>a = x # xs\<close>
  show "((r, ic, Some x, xs), r, ic, p, s) \<in> measure (\<lambda>(r, ic, p, s). length s)" by simp
next
  fix r ic p s x2 b y m ya g yb p' a
  assume "search r ic p s = Some x2" "(b, y) = x2" "(m, ya) = y" "(g, yb) = ya" "(p', a) = yb"
    "m \<noteq> []"
  then have "search r ic p s = Some (b, m, g, p', a)" by simp
  from search_SomeD[OF this] \<open>m \<noteq> []\<close>
  show "((r, ic, p', a), r, ic, p, s) \<in> measure (\<lambda>(r, ic, p, s). length s)" by simp
qed

declare match_all.simps [simp del]

text \<open>The text an item stands for in the input, and what it becomes in the output.\<close>

fun item_source :: "item \<Rightarrow> string" where
  "item_source (Gap t) = t"
| "item_source (Hit m g) = m"

fun item_output :: "(string \<Rightarrow> caps \<Rightarrow> string) \<Rightarrow> item \<Rightarrow> string" where
  "item_output f (Gap t) = t"
| "item_output f (Hit m g) = f m g"

definition replace_all :: "re \<Rightarrow> bool \<Rightarrow> (string \<Rightarrow> caps \<Rightarrow> string) \<Rightarrow> string \<Rightarrow> string" where
  "replace_all r ic f s = concat (map (item_output f) (match_all r ic None s))"

text \<open>
  \<open>replace\<close> with a pattern without the global flag replaces the first match only.
\<close>

definition replace_first :: "re \<Rightarrow> bool \<Rightarrow> (string \<Rightarrow> caps \<Rightarrow> string) \<Rightarrow> string \<Rightarrow> string" where
  "replace_first r ic f s =
     (case search r ic None s of
        None \<Rightarrow> s
      | Some (b, m, g, p', a) \<Rightarrow> b @ f m g @ a)"

section \<open>The call rewriter (\<open>transform\<close> of \<open>modeBasedLoggingPlugin\<close>)\<close>

text \<open>
  \<^verbatim>\<open>/\b([A-Z][A-Z0-9_]*)\s*\(((?:[^)(]|\([^)]*\))*)\)/g\<close>: group 1 is
  \<open>modeNameRe\<close>, \<^verbatim>\<open>[A-Z][A-Z0-9_]*\<close>, and group 2 is \<open>argsRe\<close>,
  \<^verbatim>\<open>(?:[^)(]|\([^)]*\))*\<close>.
\<close>

definition modeNameRe :: re where
  "modeNameRe = Seq (In is_AZ) (Star (In is_AZ09u))"

definition argsRe :: re where
  "argsRe =
     Star (Alt (NotIn (\<lambda>c. c = CHR '')'' \<or> c = CHR ''(''))
               (seqs [Lit CHR ''('', Star (NotIn (\<lambda>c. c = CHR '')'')), Lit CHR '')'']))"

definition allModesRegex :: re where
  "allModesRegex =
     seqs [WordB, Grp 1 modeNameRe, Star (In is_space), Lit CHR ''('', Grp 2 argsRe, Lit CHR '')'']"

text \<open>A template literal prints a group that did not take part in the match as
  \<open>undefined\<close>.\<close>

definition interpolate :: "string option \<Rightarrow> string" where
  "interpolate v = (case v of None \<Rightarrow> ''undefined'' | Some a \<Rightarrow> a)"

text \<open>The callback of \<open>code.replace\<close>: \<open>modeName\<close> is group 1, \<open>args\<close> is group 2.\<close>

definition replacer :: "string \<Rightarrow> string \<Rightarrow> caps \<Rightarrow> string" where
  "replacer currentModeUpper m g =
     (let modeName = map_of g 1; args = map_of g 2 in
      if modeName = Some ''ALL'' then ''console.log('' @ interpolate args @ '')''
      else if modeName = Some currentModeUpper then ''console.log('' @ interpolate args @ '')''
      else [])"

definition transformed :: "(char \<Rightarrow> string) \<Rightarrow> string \<Rightarrow> string \<Rightarrow> string" where
  "transformed hi mode code =
     replace_all allModesRegex False (replacer (toUpperCase hi mode)) code"

text \<open>\<^verbatim>\<open>/\.(tsx?|jsx?)$/\<close>\<close>

definition extRegex :: re where
  "extRegex =
     seqs [Lit CHR ''.'',
           Grp 1 (Alt (seqs [Lit CHR ''t'', Lit CHR ''s'', Opt (Lit CHR ''x'')])
                      (seqs [Lit CHR ''j'', Lit CHR ''s'', Opt (Lit CHR ''x'')])),
           Eol]"

text \<open>\<open>s.includes(pat)\<close> of the source\<close>

fun str_includes :: "string \<Rightarrow> string \<Rightarrow> bool" where
  "str_includes [] pat = (pat = [])"
| "str_includes (x # xs) pat = (prefix pat (x # xs) \<or> str_includes xs pat)"

text \<open>
  \<open>transform(code, id)\<close> returns nothing (\<open>None\<close>) when the file is left as it is, and
  the new code otherwise. The parameter \<open>id\<close> of the source is \<open>fid\<close> here.
\<close>

definition transform :: "(char \<Rightarrow> string) \<Rightarrow> string \<Rightarrow> string \<Rightarrow> string \<Rightarrow> string option" where
  "transform hi mode code fid =
     (if \<not> test extRegex False fid then None
      else if str_includes fid ''debug.ts'' then None
      else
        let t = transformed hi mode code in
        if t \<noteq> code then Some t else None)"

section \<open>The mode registry (\<open>ensureModeFunction\<close>)\<close>

text \<open>
  The registry builds its patterns from the upper-cased mode name with \<open>new RegExp\<close>.
  The model takes the name as literal characters: this is what the source's pattern is
  for a name made of ASCII letters, digits and underscores, which has no character that
  is special in a pattern or in a replacement string. The case folding of the flag \<open>i\<close>
  is \<open>upper_char\<close>, which is what ECMAScript's folding comes to when the characters of
  the pattern are ASCII.
\<close>

definition nl :: string where
  "nl = [CHR 0x0A]"

text \<open>The content taken when \<open>src/debug.ts\<close> cannot be read.\<close>

definition default_content :: string where
  "default_content =
     ''// Mode-based logging helper functions that will be transformed by the build process'' @ nl @
     ''// These functions are declared globally and can be used anywhere without imports'' @ nl @
     nl @
     ''declare global {'' @ nl @
     ''  function ALL(message: string): void;'' @ nl @
     ''}'' @ nl @
     nl @
     ''// Make the functions available at runtime (though they'll be transformed)'' @ nl @
     ''(globalThis as any).ALL = function(_message: string) { /* no-op */ };'' @ nl @
     nl @
     ''export {}; // Make this a module'' @ nl"


text \<open>\<^verbatim>\<open>new RegExp(`function\\s+${functionName}\\s*\\(`, 'i')\<close>\<close>

definition globalDeclRegex :: "string \<Rightarrow> re" where
  "globalDeclRegex functionName =
     seqs [lits ''function'', Plus (In is_space), lits functionName, Star (In is_space),
           Lit CHR ''('']"

text \<open>\<^verbatim>\<open>/(declare global \{[^}]*)(})/s\<close>\<close>

definition globalBlockRegex :: re where
  "globalBlockRegex =
     seqs [Grp 1 (Seq (lits ''declare global {'') (Star (NotIn (\<lambda>c. c = CHR ''}'')))),
           Grp 2 (Lit CHR ''}'')]"

text \<open>\<^verbatim>\<open>/function\s+ALL\s*\(/i\<close>\<close>

definition allGlobalRegex :: re where
  "allGlobalRegex =
     seqs [lits ''function'', Plus (In is_space), lits ''ALL'', Star (In is_space), Lit CHR ''('']"

text \<open>
  In a replacement string, \<open>$1\<close> and \<open>$2\<close> stand for the text of the groups (empty
  for a group that did not take part). \<open>declLine\<close> is the replacement
  \<^verbatim>\<open>`$1  function ${functionName}(message: string): void;\n$2`\<close>.
\<close>

definition group_text :: "caps \<Rightarrow> nat \<Rightarrow> string" where
  "group_text g k = (case map_of g k of None \<Rightarrow> [] | Some t \<Rightarrow> t)"

definition declLine :: "string \<Rightarrow> string \<Rightarrow> caps \<Rightarrow> string" where
  "declLine functionName m g =
     group_text g 1 @ ''  function '' @ functionName @ ''(message: string): void;'' @ nl @
     group_text g 2"

definition newGlobalBlock :: "string \<Rightarrow> string" where
  "newGlobalBlock functionName =
     nl @ ''declare global {'' @ nl @
     ''  function '' @ functionName @ ''(message: string): void;'' @ nl @
     ''}'' @ nl"

definition runtimeImpl :: "string \<Rightarrow> string" where
  "runtimeImpl functionName =
     ''(globalThis as any).'' @ functionName @ '' = function(_message: string) { /* no-op */ };'' @ nl"

text \<open>\<open>s.lastIndexOf(pat)\<close>: the last index at which \<open>pat\<close> occurs, \<open>None\<close> for -1.\<close>

fun lastIndexOf_from :: "string \<Rightarrow> string \<Rightarrow> nat \<Rightarrow> nat option" where
  "lastIndexOf_from s pat 0 = (if prefix pat s then Some 0 else None)"
| "lastIndexOf_from s pat (Suc i) =
     (if prefix pat (drop (Suc i) s) then Some (Suc i) else lastIndexOf_from s pat i)"

definition lastIndexOf :: "string \<Rightarrow> string \<Rightarrow> nat option" where
  "lastIndexOf s pat = lastIndexOf_from s pat (length s)"

text \<open>
  The file system as the registry sees it: the content of \<open>src/debug.ts\<close> (\<open>None\<close>
  when the file does not exist), whether the file can be written, and the lines printed
  by \<open>console.log\<close>. Reading a missing file and writing an unwritable one throw.
\<close>

datatype error = ENOENT | EACCES

record world =
  debug_file :: "string option"
  writable :: bool
  console :: "string list"

definition readFileSync :: "world \<Rightarrow> error + string" where
  "readFileSync w = (case debug_file w of None \<Rightarrow> Inl ENOENT | Some c \<Rightarrow> Inr c)"

definition writeFileSync :: "string \<Rightarrow> world \<Rightarrow> error + world" where
  "writeFileSync content w = (if writable w then Inr (w\<lparr>debug_file := Some content\<rparr>) else Inl EACCES)"

definition console_log :: "string \<Rightarrow> world \<Rightarrow> world" where
  "console_log msg w = w\<lparr>console := console w @ [msg]\<rparr>"

text \<open>Lines 55 to 79: the body of the first \<open>if\<close>.\<close>

definition add_mode :: "string \<Rightarrow> string \<Rightarrow> world \<Rightarrow> error + string \<times> world" where
  "add_mode functionName content w =
     (let content1 =
            (if test globalBlockRegex False content
             then replace_first globalBlockRegex False (declLine functionName) content
             else newGlobalBlock functionName @ content);
          content2 =
            (case lastIndexOf content1 ''export {};'' of
               Some exportIndex \<Rightarrow>
                 take exportIndex content1 @ runtimeImpl functionName @ drop exportIndex content1
             | None \<Rightarrow> content1 @ runtimeImpl functionName @ nl @ ''export {};'' @ nl)
      in case writeFileSync content2 w of
           Inl e \<Rightarrow> Inl e
         | Inr w' \<Rightarrow>
             Inr (content2,
                  console_log (''Added '' @ functionName @ '' global function to debug.ts'') w'))"

text \<open>Lines 85 to 98: the body of the second \<open>if\<close>.\<close>

definition add_all :: "world \<Rightarrow> error + world" where
  "add_all w =
     (case readFileSync w of
        Inl e \<Rightarrow> Inl e
      | Inr content \<Rightarrow>
          (let content1 =
                 (if test globalBlockRegex False content
                  then replace_first globalBlockRegex False (declLine ''ALL'') content
                  else content);
               content2 =
                 (case lastIndexOf content1 ''export {};'' of
                    Some exportIndex \<Rightarrow>
                      take exportIndex content1 @ runtimeImpl ''ALL'' @ drop exportIndex content1
                  | None \<Rightarrow> content1)
           in case writeFileSync content2 w of
                Inl e \<Rightarrow> Inl e
              | Inr w' \<Rightarrow> Inr (console_log ''Added ALL global function to debug.ts'' w')))"

definition ensureModeFunction :: "(char \<Rightarrow> string) \<Rightarrow> string \<Rightarrow> world \<Rightarrow> error + world" where
  "ensureModeFunction hi mode w =
     (let content = (case readFileSync w of Inl e \<Rightarrow> default_content | Inr c \<Rightarrow> c);
          functionName = toUpperCase hi mode
      in case (if \<not> test (globalDeclRegex functionName) True content
               then add_mode functionName content w
               else Inr (content, w)) of
           Inl e \<Rightarrow> Inl e
         | Inr (content', w') \<Rightarrow>
             if \<not> test allGlobalRegex True content' then add_all w' else Inr w')"

text \<open>
  \<open>modeBasedLoggingPlugin(mode)\<close> first runs the registry and then returns the plugin,
  whose \<open>transform\<close> hook is the rewriter for that mode.
\<close>

definition modeBasedLoggingPlugin ::
  "(char \<Rightarrow> string) \<Rightarrow> string \<Rightarrow> world \<Rightarrow>
     error + world \<times> (string \<Rightarrow> string \<Rightarrow> string option)" where
  "modeBasedLoggingPlugin hi mode w =
     (case ensureModeFunction hi mode w of
        Inl e \<Rightarrow> Inl e
      | Inr w' \<Rightarrow> Inr (w', transform hi mode))"

text \<open>
  The mode names an artifact declares: a name is declared when the registry's own check
  for it succeeds on the content.
\<close>

definition declared :: "(char \<Rightarrow> string) \<Rightarrow> string \<Rightarrow> string \<Rightarrow> bool" where
  "declared hi content name = test (globalDeclRegex (toUpperCase hi name)) True content"

section \<open>The shape of a match\<close>

text \<open>
  Facts about the states a pattern can end in: what a character step and a star of
  character steps consume, which captures a pattern leaves alone, and from these the
  shape of every match of \<open>allModesRegex\<close>. A mode token is a text of the pattern
  \<^verbatim>\<open>[A-Z][A-Z0-9_]*\<close>.
\<close>

lemma in_step_char:
  "st' \<in> set (step_char ok (p, s, g)) \<longleftrightarrow> (\<exists>x xs. s = x # xs \<and> ok x \<and> st' = (Some x, xs, g))"
  by (auto simp: step_char_def split: list.splits)

lemma star_step_char:
  "st' \<in> set (star (step_char ok) (p, s, g)) \<Longrightarrow>
     \<exists>u v. s = u @ v \<and> list_all ok u \<and> st' = (last_char p u, v, g)"
proof (induction s arbitrary: p)
  case Nil
  then show ?case
    by (subst (asm) star.simps) (auto simp: in_step_char last_char_def)
next
  case (Cons x xs)
  from Cons.prems have "st' = (p, x # xs, g) \<or> (ok x \<and> st' \<in> set (star (step_char ok) (Some x, xs, g)))"
    by (subst (asm) star.simps) (auto simp: in_step_char rest_def split: if_splits)
  then show ?case
  proof
    assume "st' = (p, x # xs, g)"
    then have "x # xs = [] @ (x # xs) \<and> list_all ok [] \<and> st' = (last_char p [], x # xs, g)"
      by (simp add: last_char_def)
    then show ?thesis by blast
  next
    assume a: "ok x \<and> st' \<in> set (star (step_char ok) (Some x, xs, g))"
    with Cons.IH[of "Some x"] obtain u v where "xs = u @ v" "list_all ok u" "st' = (last_char (Some x) u, v, g)"
      by blast
    then have "x # xs = (x # u) @ v \<and> list_all ok (x # u) \<and> st' = (last_char p (x # u), v, g)"
      using a by (simp add: last_char_def)
    then show ?thesis by blast
  qed
qed

primrec groups :: "re \<Rightarrow> nat set" where
  "groups (Lit c) = {}"
| "groups (In P) = {}"
| "groups (NotIn P) = {}"
| "groups Eps = {}"
| "groups (Seq a b) = groups a \<union> groups b"
| "groups (Alt a b) = groups a \<union> groups b"
| "groups (Star a) = groups a"
| "groups (Grp k a) = insert k (groups a)"
| "groups WordB = {}"
| "groups Eol = {}"

definition caps_of :: "mstate \<Rightarrow> caps" where
  "caps_of st = snd (snd st)"

lemma star_keeps:
  "(\<And>a b. b \<in> set (f a) \<Longrightarrow> map_of (caps_of b) k = map_of (caps_of a) k) \<Longrightarrow>
   st' \<in> set (star f st) \<Longrightarrow> map_of (caps_of st') k = map_of (caps_of st) k"
proof (induction f st arbitrary: st' rule: star.induct)
  case (1 f st)
  from "1.prems"(2) have "st' = st \<or> (\<exists>m \<in> set (f st). length (rest m) < length (rest st) \<and> st' \<in> set (star f m))"
    by (subst (asm) star.simps) (auto split: if_splits)
  then show ?case
  proof
    assume "st' = st" then show ?thesis by simp
  next
    assume "\<exists>m \<in> set (f st). length (rest m) < length (rest st) \<and> st' \<in> set (star f m)"
    then obtain m where m: "m \<in> set (f st)" "length (rest m) < length (rest st)" "st' \<in> set (star f m)" by blast
    have "map_of (caps_of st') k = map_of (caps_of m) k" using "1.IH"[OF m(1) m(2) "1.prems"(1) m(3)] .
    moreover have "map_of (caps_of m) k = map_of (caps_of st) k" using "1.prems"(1) m(1) by blast
    ultimately show ?thesis by simp
  qed
qed

lemma rmatch_keeps:
  "st' \<in> set (rmatch r ic st) \<Longrightarrow> k \<notin> groups r \<Longrightarrow> map_of (caps_of st') k = map_of (caps_of st) k"
proof (induction r arbitrary: st st')
  case (Seq a b)
  from Seq.prems obtain m where "m \<in> set (rmatch a ic st)" "st' \<in> set (rmatch b ic m)"
    by auto
  then show ?case using Seq.IH Seq.prems(2) by (metis UnCI groups.simps(5))
next
  case (Star a)
  then show ?case using star_keeps[of "rmatch a ic" k st' st] by auto
next
  case (Grp j a)
  from Grp.prems obtain p' s' g' where m: "(p', s', g') \<in> set (rmatch a ic st)"
    and st': "st' = (p', s', (j, take (length (rest st) - length s') (rest st)) # g')"
    by auto
  have "map_of g' k = map_of (caps_of st) k" using Grp.IH[OF m] Grp.prems(2) by (simp add: caps_of_def)
  then show ?case using st' Grp.prems(2) by (simp add: caps_of_def)
next
  case (Lit c)
  then show ?case by (cases st) (auto simp: in_step_char caps_of_def)
next
  case (In P)
  then show ?case by (cases st) (auto simp: in_step_char caps_of_def)
next
  case (NotIn P)
  then show ?case by (cases st) (auto simp: in_step_char caps_of_def)
qed (auto split: if_splits)

lemma rmatch_Grp:
  assumes "st' \<in> set (rmatch (Grp k a) ic (p, s, g))"
  shows "\<exists>u v g'. s = u @ v \<and> (last_char p u, v, g') \<in> set (rmatch a ic (p, s, g)) \<and> st' = (last_char p u, v, (k, u) # g')"
proof -
  from assms obtain p' s' g' where m: "(p', s', g') \<in> set (rmatch a ic (p, s, g))"
    and st': "st' = (p', s', (k, take (length s - length s') s) # g')"
    by (auto simp: rest_def)
  from rmatch_reaches[OF m] obtain u where "s = u @ s'" "p' = last_char p u"
    by (auto simp: reaches_def rest_def)
  then show ?thesis using m st' by auto
qed

definition is_mode_token :: "string \<Rightarrow> bool" where
  "is_mode_token n = (case n of [] \<Rightarrow> False | c # cs \<Rightarrow> is_AZ c \<and> list_all is_AZ09u cs)"

lemma rmatch_Seq_iff:
  "st' \<in> set (rmatch (Seq a b) ic st) \<longleftrightarrow> (\<exists>m \<in> set (rmatch a ic st). st' \<in> set (rmatch b ic m))"
  by auto

lemma class_matches_False: "class_matches False P = P"
  by (rule ext) (simp add: class_matches_def)

lemma rmatch_In_False: "rmatch (In P) False = step_char P"
  by (rule ext) (simp add: class_matches_False)

lemma modeName_shape:
  assumes "st' \<in> set (rmatch modeNameRe False (p, s, g))"
  shows "\<exists>u v. s = u @ v \<and> is_mode_token u \<and> st' = (last_char p u, v, g)"
proof -
  from assms obtain m where m: "m \<in> set (step_char is_AZ (p, s, g))"
    and st': "st' \<in> set (star (step_char is_AZ09u) m)"
    by (auto simp: modeNameRe_def rmatch_In_False class_matches_False)
  from m obtain c cs where c: "s = c # cs" "is_AZ c" "m = (Some c, cs, g)"
    by (auto simp: in_step_char)
  from star_step_char[of st' is_AZ09u "Some c" cs g] st' c
  obtain u v where u: "cs = u @ v" "list_all is_AZ09u u" "st' = (last_char (Some c) u, v, g)"
    by auto
  have "s = (c # u) @ v \<and> is_mode_token (c # u) \<and> st' = (last_char p (c # u), v, g)"
    using c u by (simp add: is_mode_token_def last_char_def)
  then show ?thesis by blast
qed

lemma groups_argsRe: "groups argsRe = {}"
  by (simp add: argsRe_def seqs_def)

lemma call_shape:
  assumes "st' \<in> set (rmatch allModesRegex False (p, s, g0))"
  shows "\<exists>name ws args a g. s = name @ ws @ ''('' @ args @ '')'' @ a \<and> is_mode_token name \<and>
           list_all is_space ws \<and> st' = (Some CHR '')'', a, g) \<and>
           map_of g 1 = Some name \<and> map_of g 2 = Some args \<and> at_word_boundary p s"
proof -
  let ?tail4 = "Seq (Lit CHR '')'') Eps"
  let ?tail3 = "Seq (Grp 2 argsRe) ?tail4"
  let ?tail2 = "Seq (Lit CHR ''('') ?tail3"
  let ?tail1 = "Seq (Star (In is_space)) ?tail2"
  let ?tail0 = "Seq (Grp 1 modeNameRe) ?tail1"
  have R: "allModesRegex = Seq WordB ?tail0"
    by (simp add: allModesRegex_def seqs_def)
  from assms have wb: "at_word_boundary p s" and t0: "st' \<in> set (rmatch ?tail0 False (p, s, g0))"
    unfolding R rmatch_Seq_iff by (auto simp: rest_def split: if_splits)
  from t0 obtain m1 where m1: "m1 \<in> set (rmatch (Grp 1 modeNameRe) False (p, s, g0))"
    and t1: "st' \<in> set (rmatch ?tail1 False m1)"
    unfolding rmatch_Seq_iff by blast
  from rmatch_Grp[OF m1] obtain name v1 g1 where n: "s = name @ v1"
    "(last_char p name, v1, g1) \<in> set (rmatch modeNameRe False (p, s, g0))"
    "m1 = (last_char p name, v1, (1, name) # g1)"
    by blast
  from modeName_shape[OF n(2)] n(1) have tok: "is_mode_token name"
    by auto
  from t1 obtain m2 where m2: "m2 \<in> set (rmatch (Star (In is_space)) False m1)"
    and t2: "st' \<in> set (rmatch ?tail2 False m2)"
    unfolding rmatch_Seq_iff by blast
  from m2 n(3) have "m2 \<in> set (star (step_char is_space) (last_char p name, v1, (1, name) # g1))"
    by (simp add: rmatch_In_False)
  from star_step_char[OF this] obtain ws v2 where ws: "v1 = ws @ v2" "list_all is_space ws"
    "m2 = (last_char (last_char p name) ws, v2, (1, name) # g1)"
    by blast
  from t2 obtain m3 where m3: "m3 \<in> set (rmatch (Lit CHR ''('') False m2)"
    and t3: "st' \<in> set (rmatch ?tail3 False m3)"
    unfolding rmatch_Seq_iff by blast
  from m3 ws(3) obtain v3 where v3: "v2 = CHR ''('' # v3" "m3 = (Some CHR ''('', v3, (1, name) # g1)"
    by (auto simp: in_step_char char_matches_def)
  from t3 obtain m4 where m4: "m4 \<in> set (rmatch (Grp 2 argsRe) False m3)"
    and t4: "st' \<in> set (rmatch ?tail4 False m4)"
    unfolding rmatch_Seq_iff by blast
  from rmatch_Grp[OF m4[unfolded v3(2)]] obtain args v4 g4 where a: "v3 = args @ v4"
    "(last_char (Some CHR ''('') args, v4, g4) \<in> set (rmatch argsRe False (Some CHR ''('', v3, (1, name) # g1))"
    "m4 = (last_char (Some CHR ''('') args, v4, (2, args) # g4)"
    by blast
  have g4: "map_of g4 1 = Some name"
    using rmatch_keeps[OF a(2), of 1] by (simp add: groups_argsRe caps_of_def)
  from t4 a(3) obtain v5 where v5: "v4 = CHR '')'' # v5" "st' = (Some CHR '')'', v5, (2, args) # g4)"
    by (auto simp: in_step_char char_matches_def)
  have "s = name @ ws @ ''('' @ args @ '')'' @ v5"
    using n(1) ws(1) v3(1) a(1) v5(1) by simp
  moreover have "map_of ((2, args) # g4) 1 = Some name" "map_of ((2, args) # g4) 2 = Some args"
    using g4 by simp_all
  ultimately show ?thesis using tok ws(2) v5(2) wb by blast
qed

lemma match_all_source: "concat (map item_source (match_all r ic p s)) = s"
proof (induction r ic p s rule: match_all.induct)
  case (1 r ic p s)
  show ?case
  proof (cases "search r ic p s")
    case None
    then show ?thesis by (subst match_all.simps) simp
  next
    case (Some f)
    obtain b m g p' a where f: "f = (b, m, g, p', a)" by (cases f) auto
    note sd = search_SomeD[OF Some[unfolded f]]
    show ?thesis
    proof (cases "m = []")
      case True
      show ?thesis
      proof (cases a)
        case Nil
        then show ?thesis using Some f True sd by (subst match_all.simps) simp
      next
        case (Cons x xs)
        have "concat (map item_source (match_all r ic (Some x) xs)) = xs"
          using "1.IH"(1)[OF Some f[symmetric] refl refl refl True Cons] .
        then show ?thesis using Some f True sd Cons by (subst match_all.simps) simp
      qed
    next
      case False
      have "concat (map item_source (match_all r ic p' a)) = a"
        using "1.IH"(2)[OF Some f[symmetric] refl refl refl False] .
      then show ?thesis using Some f False sd by (subst match_all.simps) simp
    qed
  qed
qed

lemma match_all_hit:
  "Hit m g \<in> set (match_all r ic p s) \<Longrightarrow>
     \<exists>p0 a p' rs. rmatch r ic (p0, m @ a, []) = (p', a, g) # rs"
proof (induction r ic p s rule: match_all.induct)
  case (1 r ic p s)
  show ?case
  proof (cases "search r ic p s")
    case None
    with "1.prems" show ?thesis by (subst (asm) match_all.simps) simp
  next
    case (Some f)
    obtain b m0 g0 p' a where f: "f = (b, m0, g0, p', a)" by (cases f) auto
    note sd = search_SomeD[OF Some[unfolded f]]
    from "1.prems" Some f have
      "(m = m0 \<and> g = g0) \<or>
       (m0 = [] \<and> (\<exists>x xs. a = x # xs \<and> Hit m g \<in> set (match_all r ic (Some x) xs))) \<or>
       (m0 \<noteq> [] \<and> Hit m g \<in> set (match_all r ic p' a))"
      by (subst (asm) match_all.simps) (auto split: if_splits list.splits)
    then show ?thesis
    proof (elim disjE conjE exE)
      assume "m = m0" "g = g0"
      then show ?thesis using sd by blast
    next
      fix x xs assume "m0 = []" "a = x # xs" "Hit m g \<in> set (match_all r ic (Some x) xs)"
      then show ?thesis using "1.IH"(1)[OF Some f[symmetric] refl refl refl] by blast
    next
      assume "m0 \<noteq> []" "Hit m g \<in> set (match_all r ic p' a)"
      then show ?thesis using "1.IH"(2)[OF Some f[symmetric] refl refl refl] by blast
    qed
  qed
qed

lemma hit_shape:
  assumes "Hit m g \<in> set (match_all allModesRegex False p s)"
  shows "\<exists>name ws args. m = name @ ws @ ''('' @ args @ '')'' \<and> is_mode_token name \<and>
           list_all is_space ws \<and> map_of g 1 = Some name \<and> map_of g 2 = Some args"
proof -
  from match_all_hit[OF assms] obtain p0 a p' rs where
    "rmatch allModesRegex False (p0, m @ a, []) = (p', a, g) # rs" by blast
  then have "(p', a, g) \<in> set (rmatch allModesRegex False (p0, m @ a, []))" by simp
  from call_shape[OF this] obtain name ws args where
    "m @ a = name @ ws @ ''('' @ args @ '')'' @ a" "is_mode_token name" "list_all is_space ws"
    "map_of g 1 = Some name" "map_of g 2 = Some args"
    by auto
  then show ?thesis by auto
qed


lemma token_chars_not_lower:
  "list_all (\<lambda>c. c \<notin> set lower_letters) (upper_letters @ digits @ ''_'')"
  by code_simp

lemma upper_char_token: "is_AZ09u c \<Longrightarrow> upper_char c = c"
proof -
  assume "is_AZ09u c"
  then have "c \<in> set (upper_letters @ digits @ ''_'')"
    by (auto simp: is_AZ09u_def is_AZ_def)
  with token_chars_not_lower have "c \<notin> set lower_letters"
    unfolding list_all_iff by blast
  moreover have "length lower_letters = length upper_letters"
    by (simp add: lower_letters_def upper_letters_def)
  ultimately have "map_of (zip lower_letters upper_letters) c = None"
    by (simp add: map_of_zip_is_None)
  then show ?thesis by (simp add: upper_char_def)
qed

lemma token_chars_ascii:
  "list_all (\<lambda>c. \<not> digit7 c) (upper_letters @ digits @ ''_'')"
  by code_simp

lemma token_char_ascii: "is_AZ09u c \<Longrightarrow> \<not> digit7 c"
proof -
  assume "is_AZ09u c"
  then have "c \<in> set (upper_letters @ digits @ ''_'')"
    by (auto simp: is_AZ09u_def is_AZ_def)
  with token_chars_ascii show ?thesis
    unfolding list_all_iff by blast
qed

lemma toUpperCase_token_chars: "list_all is_AZ09u cs \<Longrightarrow> toUpperCase hi cs = cs"
  by (induction cs) (auto simp: toUpperCase_def upper_char_token token_char_ascii)

lemma toUpperCase_token: "is_mode_token n \<Longrightarrow> toUpperCase hi n = n"
proof -
  assume a: "is_mode_token n"
  then have "list_all is_AZ09u n"
    by (auto simp: is_mode_token_def is_AZ09u_def split: list.splits)
  then show ?thesis by (rule toUpperCase_token_chars)
qed

lemma transformed_split:
  assumes "match_all allModesRegex False None code = xs @ Hit m g # ys"
  shows "code = concat (map item_source xs) @ m @ concat (map item_source ys)"
    and "transformed hi mode code =
           concat (map (item_output (replacer (toUpperCase hi mode))) xs) @
           replacer (toUpperCase hi mode) m g @
           concat (map (item_output (replacer (toUpperCase hi mode))) ys)"
proof -
  have "concat (map item_source (match_all allModesRegex False None code)) = code"
    by (rule match_all_source)
  then show "code = concat (map item_source xs) @ m @ concat (map item_source ys)"
    unfolding assms by simp
  show "transformed hi mode code =
           concat (map (item_output (replacer (toUpperCase hi mode))) xs) @
           replacer (toUpperCase hi mode) m g @
           concat (map (item_output (replacer (toUpperCase hi mode))) ys)"
    unfolding transformed_def replace_all_def assms by simp
qed

lemma token_chars: "is_mode_token n \<Longrightarrow> n \<noteq> [] \<and> list_all is_AZ09u n"
  by (auto simp: is_mode_token_def is_AZ09u_def split: list.splits)

lemma ext_shape:
  assumes "st' \<in> set (rmatch extRegex False (p, s, g0))"
  shows "rest st' = [] \<and> s \<in> {''.ts'', ''.tsx'', ''.js'', ''.jsx''}"
  using assms
  by (auto simp: extRegex_def seqs_def Opt_def in_step_char char_matches_def rest_def
           split: if_splits)

lemma test_ext_suffix:
  assumes "test extRegex False fid"
  shows "suffix ''.ts'' fid \<or> suffix ''.tsx'' fid \<or> suffix ''.js'' fid \<or> suffix ''.jsx'' fid"
proof -
  from assms obtain f where f: "search extRegex False None fid = Some f"
    by (auto simp: test_def)
  obtain b m g p' a where "f = (b, m, g, p', a)" by (cases f) auto
  from search_SomeD[OF f[unfolded this]] obtain rs where s: "fid = b @ m @ a"
    and "rmatch extRegex False (last_char None b, m @ a, []) = (p', a, g) # rs" by blast
  then have "(p', a, g) \<in> set (rmatch extRegex False (last_char None b, m @ a, []))" by simp
  from ext_shape[OF this] have "a = []" "m \<in> {''.ts'', ''.tsx'', ''.js'', ''.jsx''}"
    by (auto simp: rest_def)
  with s have "suffix m fid" by (simp add: suffix_def)
  with \<open>m \<in> _\<close> show ?thesis by auto
qed

lemma str_includes_append: "str_includes (ps @ pat @ ss) pat"
proof (induction ps)
  case Nil
  show ?case
  proof (cases "pat @ ss")
    case Nil
    then show ?thesis by simp
  next
    case (Cons a l)
    have "prefix pat (pat @ ss)" by simp
    then have "prefix pat (a # l)" using Cons by simp
    then show ?thesis using Cons by simp
  qed
next
  case (Cons x ps)
  then show ?case by simp
qed

lemma sublist_str_includes: "sublist pat s \<Longrightarrow> str_includes s pat"
  by (auto simp: sublist_def str_includes_append)

section \<open>Matching is local\<close>


definition within :: "string \<Rightarrow> mstate \<Rightarrow> bool" where
  "within c st = (length c \<le> length (rest st))"

definition push :: "string \<Rightarrow> mstate \<Rightarrow> mstate" where
  "push c st = (fst st, rest st @ c, snd (snd st))"

lemma push_simp [simp]: "push c (p, s, g) = (p, s @ c, g)"
  by (simp add: push_def rest_def)

lemma rest_push [simp]: "rest (push c st) = rest st @ c"
  by (simp add: push_def rest_def)

lemma within_push [simp]: "within c (push c st)"
  by (simp add: within_def)




lemma star_unfold:
  "star f st = concat (map (\<lambda>m. if length (rest m) < length (rest st) then star f m else []) (f st)) @ [st]"
  by (subst star.simps) simp










lemma match_has_rparen:
  assumes "st' \<in> set (rmatch allModesRegex False (p, s, g0))"
  shows "\<exists>u. s = u @ '')'' @ rest st'"
proof -
  from call_shape[OF assms] obtain name ws args a g where
    "s = name @ ws @ ''('' @ args @ '')'' @ a" "st' = (Some CHR '')'', a, g)" by blast
  then have "s = (name @ ws @ ''('' @ args) @ '')'' @ rest st'" by (simp add: rest_def)
  then show ?thesis by blast
qed

lemma no_match_without_rparen:
  "CHR '')'' \<notin> set s \<Longrightarrow> rmatch allModesRegex False (p, s, g0) = []"
proof (rule ccontr)
  assume a: "CHR '')'' \<notin> set s" and "rmatch allModesRegex False (p, s, g0) \<noteq> []"
  then obtain st' where "st' \<in> set (rmatch allModesRegex False (p, s, g0))"
    by (cases "rmatch allModesRegex False (p, s, g0)") auto
  from match_has_rparen[OF this] obtain u where "s = u @ '')'' @ rest st'" by blast
  then have "CHR '')'' \<in> set s" by (metis append_Cons in_set_conv_decomp)
  with a show False by simp
qed



lemma allModes_unfold:
  "rmatch allModesRegex False (p, s, g) =
     (if at_word_boundary p s
      then rmatch (seqs [Grp 1 modeNameRe, Star (In is_space), Lit CHR ''('', Grp 2 argsRe, Lit CHR '')''])
             False (p, s, g)
      else [])"
  by (simp add: allModesRegex_def seqs_def rest_def)




section \<open>Texts made of call sites\<close>

text \<open>
  The scan of \<open>transform\<close> is followed here on texts whose shape is known: call
  sites that stand outside any other call, separated by text in which the pattern
  cannot start. On such a text every call site is found, and the output is known.
\<close>

lemma token_chars_plain:
  "list_all (\<lambda>c. \<not> is_space c \<and> c \<noteq> CHR ''('' \<and> is_word c) (upper_letters @ digits @ ''_'')"
  by code_simp

lemma token_char_plain: "is_AZ09u c \<Longrightarrow> \<not> is_space c \<and> c \<noteq> CHR ''('' \<and> is_word c"
proof -
  assume "is_AZ09u c"
  then have "c \<in> set (upper_letters @ digits @ ''_'')"
    by (auto simp: is_AZ09u_def is_AZ_def)
  with token_chars_plain show ?thesis
    unfolding list_all_iff by blast
qed

lemma space_not_paren: "is_space c \<Longrightarrow> c \<noteq> CHR ''(''"
  by (auto simp: is_space_def)

lemma AZ_token_char: "is_AZ c \<Longrightarrow> is_AZ09u c"
  by (simp add: is_AZ09u_def)

text \<open>
  The matcher lists its results in the order in which backtracking tries them, and
  \<open>search\<close> takes the first: \<open>first_is xs x\<close> says that \<open>x\<close> is that first result.
\<close>

definition first_is :: "'a list \<Rightarrow> 'a \<Rightarrow> bool" where
  "first_is xs x = (\<exists>rs. xs = x # rs)"

lemma first_Seq:
  "first_is (rmatch a ic st) m \<Longrightarrow> first_is (rmatch b ic m) r \<Longrightarrow> first_is (rmatch (Seq a b) ic st) r"
  by (auto simp: first_is_def)

lemma first_Eps: "first_is (rmatch Eps ic st) st"
  by (simp add: first_is_def)

lemma first_Grp:
  "first_is (rmatch a ic (p, u @ v, g)) (p', v, g') \<Longrightarrow>
   first_is (rmatch (Grp k a) ic (p, u @ v, g)) (p', v, (k, u) # g')"
  by (auto simp: first_is_def rest_def)

lemma first_Lit: "first_is (rmatch (Lit c) False (p, c # s, g)) (Some c, s, g)"
  by (simp add: first_is_def step_char_def char_matches_def)

lemma first_star_step:
  assumes "first_is (f st) m" and "length (rest m) < length (rest st)" and "first_is (star f m) r"
  shows "first_is (star f st) r"
proof -
  from assms(1) obtain ms where ms: "f st = m # ms" by (auto simp: first_is_def)
  from assms(3) obtain rs where rs: "star f m = r # rs" by (auto simp: first_is_def)
  show ?thesis
    by (subst star_unfold) (simp add: ms rs assms(2) first_is_def)
qed

lemma first_star_stop: "f st = [] \<Longrightarrow> first_is (star f st) st"
  by (subst star_unfold) (simp add: first_is_def)

lemma first_star_chars:
  "list_all ok u \<Longrightarrow> v = [] \<or> \<not> ok (hd v) \<Longrightarrow>
   first_is (star (step_char ok) (p, u @ v, g)) (last_char p u, v, g)"
proof (induction u arbitrary: p)
  case Nil
  then have "step_char ok (p, v, g) = []"
    by (cases v) (auto simp: step_char_def)
  then show ?case using first_star_stop[of "step_char ok" "(p, v, g)"] by (simp add: last_char_def)
next
  case (Cons x u)
  have "first_is (step_char ok (p, (x # u) @ v, g)) (Some x, u @ v, g)"
    using Cons.prems(1) by (simp add: step_char_def first_is_def)
  moreover have "length (rest (Some x, u @ v, g)) < length (rest (p, (x # u) @ v, g))"
    by (simp add: rest_def)
  moreover have "first_is (star (step_char ok) (Some x, u @ v, g)) (last_char (Some x) u, v, g)"
    using Cons.IH[of "Some x"] Cons.prems by simp
  ultimately have H: "first_is (star (step_char ok) (p, (x # u) @ v, g)) (last_char (Some x) u, v, g)"
    by (rule first_star_step)
  have eq: "last_char (Some x) u = last_char p (x # u)" by (simp add: last_char_def)
  show ?case using H unfolding eq .
qed

text \<open>
  An argument text as the pattern reads it: characters other than parentheses, and
  groups that open with \<open>(\<close> and run to the next \<open>)\<close>. The flag tells whether the
  scan is inside such a group.
\<close>

text \<open>
  An argument text that the pattern takes whole: outside parentheses it has no
  \<open>)\<close>, a \<open>(\<close> opens a group that lasts to the next \<open>)\<close>, and every group is
  closed. \<open>inside\<close> tells whether the scan is within such a group.
\<close>

fun one_level :: "bool \<Rightarrow> string \<Rightarrow> bool" where
  "one_level inside [] = (\<not> inside)"
| "one_level inside (c # s) =
     (if inside then (if c = CHR '')'' then one_level False s else one_level True s)
      else if c = CHR ''('' then one_level True s
      else c \<noteq> CHR '')'' \<and> one_level False s)"

lemma inside_split:
  "one_level True s \<Longrightarrow>
     \<exists>inner s'. s = inner @ CHR '')'' # s' \<and> CHR '')'' \<notin> set inner \<and> one_level False s'"
proof (induction s)
  case Nil
  then show ?case by simp
next
  case (Cons c s)
  show ?case
  proof (cases "c = CHR '')''")
    case True
    with Cons.prems have "c # s = [] @ CHR '')'' # s \<and> CHR '')'' \<notin> set [] \<and> one_level False s"
      by simp
    then show ?thesis by blast
  next
    case False
    with Cons.prems have "one_level True s" by simp
    from Cons.IH[OF this] obtain inner s' where
      "s = inner @ CHR '')'' # s'" "CHR '')'' \<notin> set inner" "one_level False s'" by blast
    with False have "c # s = (c # inner) @ CHR '')'' # s' \<and> CHR '')'' \<notin> set (c # inner) \<and> one_level False s'"
      by simp
    then show ?thesis by blast
  qed
qed

text \<open>One iteration of the argument loop: \<^verbatim>\<open>[^)(]|\([^)]*\)\<close>.\<close>

definition argPiece :: re where
  "argPiece =
     Alt (NotIn (\<lambda>c. c = CHR '')'' \<or> c = CHR ''(''))
         (seqs [Lit CHR ''('', Star (NotIn (\<lambda>c. c = CHR '')'')), Lit CHR '')''])"

lemma argsRe_piece: "argsRe = Star argPiece"
  by (simp add: argsRe_def argPiece_def)

lemma piece_stop: "rmatch argPiece False (p, CHR '')'' # s, g) = []"
  by (simp add: argPiece_def seqs_def step_char_def class_matches_def char_matches_def)

lemma piece_char:
  "c \<noteq> CHR '')'' \<Longrightarrow> c \<noteq> CHR ''('' \<Longrightarrow>
   first_is (rmatch argPiece False (p, c # s, g)) (Some c, s, g)"
  by (simp add: argPiece_def seqs_def step_char_def class_matches_def char_matches_def first_is_def)

lemma piece_group:
  assumes "CHR '')'' \<notin> set inner"
  shows "first_is (rmatch argPiece False (p, CHR ''('' # inner @ CHR '')'' # s, g)) (Some CHR '')'', s, g)"
proof -
  let ?grp = "seqs [Lit CHR ''('', Star (NotIn (\<lambda>c. c = CHR '')'')), Lit CHR '')'']"
  have st: "first_is (rmatch (Star (NotIn (\<lambda>c. c = CHR '')''))) False (Some CHR ''('', inner @ CHR '')'' # s, g))
              (last_char (Some CHR ''('') inner, CHR '')'' # s, g)"
  proof -
    have "rmatch (NotIn (\<lambda>c. c = CHR '')'')) False = step_char (\<lambda>x. x \<noteq> CHR '')'')"
      by (rule ext) (simp add: class_matches_def)
    moreover have "list_all (\<lambda>x. x \<noteq> CHR '')'') inner"
      using assms by (auto simp: list_all_iff)
    ultimately show ?thesis
      using first_star_chars[of "\<lambda>x. x \<noteq> CHR '')''" inner "CHR '')'' # s" "Some CHR ''(''" g]
      by simp
  qed
  have "first_is (rmatch (Seq (Lit CHR '')'') Eps) False (last_char (Some CHR ''('') inner, CHR '')'' # s, g))
          (Some CHR '')'', s, g)"
    by (rule first_Seq[OF first_Lit first_Eps])
  with st have H: "first_is (rmatch (Seq (Star (NotIn (\<lambda>c. c = CHR '')''))) (Seq (Lit CHR '')'') Eps)) False
                  (Some CHR ''('', inner @ CHR '')'' # s, g)) (Some CHR '')'', s, g)"
    by (rule first_Seq)
  have grp_eq: "?grp = Seq (Lit CHR ''('') (Seq (Star (NotIn (\<lambda>c. c = CHR '')''))) (Seq (Lit CHR '')'') Eps))"
    by (simp add: seqs_def)
  have g: "first_is (rmatch ?grp False (p, CHR ''('' # inner @ CHR '')'' # s, g)) (Some CHR '')'', s, g)"
    unfolding grp_eq by (rule first_Seq[OF first_Lit H])
  have "rmatch (NotIn (\<lambda>c. c = CHR '')'' \<or> c = CHR ''('')) False (p, CHR ''('' # inner @ CHR '')'' # s, g) = []"
    by (simp add: step_char_def class_matches_def)
  with g show ?thesis by (simp add: argPiece_def first_is_def)
qed

lemma first_args:
  "one_level False a \<Longrightarrow>
   first_is (rmatch argsRe False (p, a @ CHR '')'' # s, g)) (last_char p a, CHR '')'' # s, g)"
proof (induction "length a" arbitrary: a p rule: less_induct)
  case less
  show ?case
  proof (cases a)
    case Nil
    then show ?thesis
      using first_star_stop[of "rmatch argPiece False" "(p, CHR '')'' # s, g)"] piece_stop
      by (simp add: argsRe_piece last_char_def)
  next
    case (Cons c a')
    show ?thesis
    proof (cases "c = CHR ''(''")
      case True
      with less.prems Cons have "one_level True a'" by simp
      from inside_split[OF this] obtain inner a'' where
        sp: "a' = inner @ CHR '')'' # a''" "CHR '')'' \<notin> set inner" "one_level False a''" by blast
      have f: "first_is (rmatch argPiece False (p, a @ CHR '')'' # s, g)) (Some CHR '')'', a'' @ CHR '')'' # s, g)"
        using piece_group[OF sp(2), of p "a'' @ CHR '')'' # s" g] Cons True sp(1) by simp
      have l: "length (rest (Some CHR '')'', a'' @ CHR '')'' # s, g)) < length (rest (p, a @ CHR '')'' # s, g))"
        using Cons sp(1) by (simp add: rest_def)
      have "length a'' < length a" using Cons sp(1) by simp
      from less.hyps[OF this sp(3), of "Some CHR '')''"] have
        r: "first_is (star (rmatch argPiece False) (Some CHR '')'', a'' @ CHR '')'' # s, g))
              (last_char (Some CHR '')'') a'', CHR '')'' # s, g)"
        by (simp add: argsRe_piece)
      have "last_char (Some CHR '')'') a'' = last_char p a"
        using Cons sp(1) by (simp add: last_char_def)
      with first_star_step[OF f l r] show ?thesis by (simp add: argsRe_piece)
    next
      case False
      with less.prems Cons have c: "c \<noteq> CHR '')''" and ok: "one_level False a'" by simp_all
      have f: "first_is (rmatch argPiece False (p, a @ CHR '')'' # s, g)) (Some c, a' @ CHR '')'' # s, g)"
        using piece_char[OF c False, of p "a' @ CHR '')'' # s" g] Cons by simp
      have l: "length (rest (Some c, a' @ CHR '')'' # s, g)) < length (rest (p, a @ CHR '')'' # s, g))"
        using Cons by (simp add: rest_def)
      have "length a' < length a" using Cons by simp
      from less.hyps[OF this ok, of "Some c"] have
        r: "first_is (star (rmatch argPiece False) (Some c, a' @ CHR '')'' # s, g))
              (last_char (Some c) a', CHR '')'' # s, g)"
        by (simp add: argsRe_piece)
      have "last_char (Some c) a' = last_char p a"
        using Cons by (simp add: last_char_def)
      with first_star_step[OF f l r] show ?thesis by (simp add: argsRe_piece)
    qed
  qed
qed


text \<open>Whether the character before a position is a word character (none at the start).\<close>

definition word_opt :: "char option \<Rightarrow> bool" where
  "word_opt p = (case p of None \<Rightarrow> False | Some c \<Rightarrow> is_word c)"

lemma boundary_before_token:
  "is_mode_token n \<Longrightarrow> at_word_boundary p (n @ s) = (\<not> word_opt p)"
  by (cases n) (auto simp: is_mode_token_def at_word_boundary_def word_opt_def
      dest: AZ_token_char token_char_plain split: option.splits)

lemma first_modeName:
  assumes tok: "is_mode_token n" and nxt: "s = [] \<or> \<not> is_AZ09u (hd s)"
  shows "first_is (rmatch modeNameRe False (p, n @ s, g)) (last_char p n, s, g)"
proof -
  from tok obtain c cs where n: "n = c # cs" "is_AZ c" "list_all is_AZ09u cs"
    by (auto simp: is_mode_token_def split: list.splits)
  have a: "first_is (rmatch (In is_AZ) False (p, n @ s, g)) (Some c, cs @ s, g)"
    using n by (simp add: rmatch_In_False step_char_def first_is_def)
  have b: "first_is (rmatch (Star (In is_AZ09u)) False (Some c, cs @ s, g)) (last_char (Some c) cs, s, g)"
    using first_star_chars[OF n(3) nxt, of "Some c" g] by (simp add: rmatch_In_False)
  have eq: "last_char (Some c) cs = last_char p n" using n(1) by (simp add: last_char_def)
  show ?thesis using first_Seq[OF a b] unfolding modeNameRe_def eq .
qed

lemma first_call:
  assumes tok: "is_mode_token n" and ws: "list_all is_space w" and ar: "one_level False a"
    and bd: "\<not> word_opt p"
  shows "first_is (rmatch allModesRegex False (p, n @ w @ ''('' @ a @ '')'' @ s, []))
           (Some CHR '')'', s, [(2, a), (1, n)])"
proof -
  let ?after_n = "w @ ''('' @ a @ '')'' @ s"
  have nxt: "?after_n = [] \<or> \<not> is_AZ09u (hd ?after_n)"
  proof (cases w)
    case Nil
    then show ?thesis using token_char_plain[of "CHR ''(''"] by auto
  next
    case (Cons x xs)
    then have "is_space x" using ws by simp
    then show ?thesis using Cons token_char_plain[of x] by auto
  qed
  have g1: "first_is (rmatch (Grp 1 modeNameRe) False (p, n @ ?after_n, []))
              (last_char p n, ?after_n, [(1, n)])"
    by (rule first_Grp[OF first_modeName[OF tok nxt]])
  have sp: "first_is (rmatch (Star (In is_space)) False (last_char p n, w @ (''('' @ a @ '')'' @ s), [(1, n)]))
              (last_char (last_char p n) w, ''('' @ a @ '')'' @ s, [(1, n)])"
    using first_star_chars[OF ws, of "''('' @ a @ '')'' @ s" "last_char p n" "[(1, n)]"]
      space_not_paren[of "CHR ''(''"]
    by (auto simp: rmatch_In_False)
  have lp: "first_is (rmatch (Lit CHR ''('') False (last_char (last_char p n) w, ''('' @ a @ '')'' @ s, [(1, n)]))
              (Some CHR ''('', a @ '')'' @ s, [(1, n)])"
    using first_Lit[of "CHR ''(''"] by simp
  have g2: "first_is (rmatch (Grp 2 argsRe) False (Some CHR ''('', a @ '')'' @ s, [(1, n)]))
              (last_char (Some CHR ''('') a, '')'' @ s, [(2, a), (1, n)])"
    using first_Grp[OF first_args[OF ar, of "Some CHR ''(''" s "[(1, n)]"], of 2] by simp
  have rp: "first_is (rmatch (Seq (Lit CHR '')'') Eps) False (last_char (Some CHR ''('') a, '')'' @ s, [(2, a), (1, n)]))
              (Some CHR '')'', s, [(2, a), (1, n)])"
    using first_Seq[OF first_Lit first_Eps, of "CHR '')''"] by simp
  have t3: "first_is (rmatch (Seq (Grp 2 argsRe) (Seq (Lit CHR '')'') Eps)) False (Some CHR ''('', a @ '')'' @ s, [(1, n)]))
              (Some CHR '')'', s, [(2, a), (1, n)])"
    by (rule first_Seq[OF g2 rp])
  have t2: "first_is (rmatch (Seq (Lit CHR ''('') (Seq (Grp 2 argsRe) (Seq (Lit CHR '')'') Eps))) False
              (last_char (last_char p n) w, ''('' @ a @ '')'' @ s, [(1, n)]))
              (Some CHR '')'', s, [(2, a), (1, n)])"
    by (rule first_Seq[OF lp t3])
  have t1: "first_is (rmatch (Seq (Star (In is_space)) (Seq (Lit CHR ''('') (Seq (Grp 2 argsRe) (Seq (Lit CHR '')'') Eps)))) False
              (last_char p n, ?after_n, [(1, n)]))
              (Some CHR '')'', s, [(2, a), (1, n)])"
    by (rule first_Seq[OF sp t2])
  have t0: "first_is (rmatch (seqs [Grp 1 modeNameRe, Star (In is_space), Lit CHR ''('', Grp 2 argsRe, Lit CHR '')'']) False
              (p, n @ ?after_n, []))
              (Some CHR '')'', s, [(2, a), (1, n)])"
    unfolding seqs_def using first_Seq[OF g1 t1] by simp
  have "at_word_boundary p (n @ ?after_n)"
    using boundary_before_token[OF tok] bd by simp
  then show ?thesis using t0 by (simp add: allModes_unfold)
qed

text \<open>
  A candidate call site in a text: a mode token that starts the text or follows a
  character that is no word character, then white space (possibly none), then \<open>(\<close>.
\<close>

text \<open>
  A candidate is a place where the pattern can start and reach its \<open>(\<close>: a mode token
  at the start of the text or after a character that is no word character, white
  space only (possibly none), then \<open>(\<close>.
\<close>

definition has_candidate :: "string \<Rightarrow> bool" where
  "has_candidate t =
     (\<exists>u n w v. t = u @ n @ w @ ''('' @ v \<and> is_mode_token n \<and> list_all is_space w \<and>
                (u = [] \<or> \<not> is_word (last u)))"

lemma first_paren_unique:
  assumes "CHR ''('' \<notin> set x" "CHR ''('' \<notin> set y" "x @ CHR ''('' # r = y @ CHR ''('' # r'"
  shows "x = y"
  using assms
proof (induction x arbitrary: y)
  case Nil
  then show ?case by (cases y) auto
next
  case (Cons c x)
  then show ?case by (cases y) auto
qed

lemma token_no_paren: "is_mode_token n \<Longrightarrow> CHR ''('' \<notin> set n"
  using token_chars[of n] token_char_plain by (auto simp: list_all_iff)

lemma spaces_no_paren: "list_all is_space w \<Longrightarrow> CHR ''('' \<notin> set w"
  using space_not_paren by (auto simp: list_all_iff)

lemma no_match_in_gap:
  assumes ng: "\<not> has_candidate (u @ v)" and v: "v \<noteq> []"
    and F: "F = [] \<or> (\<exists>n w X. F = n @ w @ ''('' @ X \<and> is_mode_token n \<and> list_all is_space w)"
    and bd: "F \<noteq> [] \<longrightarrow> \<not> is_word (last v)"
  shows "rmatch allModesRegex False (last_char p u, v @ F, g0) = []"
proof (rule ccontr)
  assume "rmatch allModesRegex False (last_char p u, v @ F, g0) \<noteq> []"
  then obtain st' where "st' \<in> set (rmatch allModesRegex False (last_char p u, v @ F, g0))"
    by (cases "rmatch allModesRegex False (last_char p u, v @ F, g0)") auto
  from call_shape[OF this] obtain n' w' args' a' where
    sh: "v @ F = n' @ w' @ ''('' @ args' @ '')'' @ a'" "is_mode_token n'" "list_all is_space w'"
    and wb: "at_word_boundary (last_char p u) (v @ F)"
    by blast
  have "\<not> word_opt (last_char p u)"
    using wb boundary_before_token[OF sh(2), of "last_char p u" "w' @ ''('' @ args' @ '')'' @ a'"] sh(1)
    by simp
  then have ub: "u = [] \<or> \<not> is_word (last u)"
    by (auto simp: last_char_def word_opt_def)
  from sh(1) have "v @ F = (n' @ w') @ (CHR ''('' # args' @ '')'' @ a')" by simp
  then obtain us where
    "(v = (n' @ w') @ us \<and> us @ F = CHR ''('' # args' @ '')'' @ a') \<or>
     (v @ us = n' @ w' \<and> F = us @ CHR ''('' # args' @ '')'' @ a')"
    unfolding append_eq_append_conv2 by blast
  then show False
  proof
    assume c1: "v = (n' @ w') @ us \<and> us @ F = CHR ''('' # args' @ '')'' @ a'"
    show False
    proof (cases us)
      case Nil
      with c1 have Fp: "F = CHR ''('' # args' @ '')'' @ a'" by simp
      with F obtain n w X where "F = n @ w @ ''('' @ X" "is_mode_token n" by auto
      with Fp have "CHR ''('' \<in> set n"
        using token_chars[of n] by (cases n) auto
      with \<open>is_mode_token n\<close> token_no_paren show False by blast
    next
      case (Cons x us')
      with c1 have "x = CHR ''(''" by simp
      with c1 Cons have "u @ v = u @ n' @ w' @ ''('' @ us'" by simp
      with sh(2,3) ub have "has_candidate (u @ v)"
        unfolding has_candidate_def by blast
      with ng show False by simp
    qed
  next
    assume c2: "v @ us = n' @ w' \<and> F = us @ CHR ''('' # args' @ '')'' @ a'"
    then have "F \<noteq> []" by simp
    with F obtain n w X where Fs: "F = n @ w @ ''('' @ X" "is_mode_token n" "list_all is_space w"
      by auto
    have "CHR ''('' \<notin> set (n' @ w')"
      using token_no_paren[OF sh(2)] spaces_no_paren[OF sh(3)] by simp
    with c2 have "CHR ''('' \<notin> set us" by (metis Un_iff set_append)
    moreover have "CHR ''('' \<notin> set (n @ w)"
      using token_no_paren[OF Fs(2)] spaces_no_paren[OF Fs(3)] by simp
    moreover have "us @ CHR ''('' # args' @ '')'' @ a' = (n @ w) @ CHR ''('' # X"
      using c2 Fs(1) by simp
    ultimately have "us = n @ w" by (rule first_paren_unique)
    with c2 have "n' @ w' = v @ n @ w" by simp
    then obtain ts where
      "(n' = v @ ts \<and> ts @ w' = n @ w) \<or> (n' @ ts = v \<and> w' = ts @ n @ w)"
      unfolding append_eq_append_conv2 by blast
    then show False
    proof
      assume "n' = v @ ts \<and> ts @ w' = n @ w"
      then have "list_all is_AZ09u v" using token_chars[OF sh(2)] by simp
      with v have "is_AZ09u (last v)" by (simp add: list_all_iff)
      then have "is_word (last v)" using token_char_plain by blast
      with bd \<open>F \<noteq> []\<close> show False by simp
    next
      assume "n' @ ts = v \<and> w' = ts @ n @ w"
      moreover from Fs(2) obtain c cs where "n = c # cs" "is_AZ c"
        by (auto simp: is_mode_token_def split: list.splits)
      ultimately have "c \<in> set w'" by simp
      with sh(3) have "is_space c" by (simp add: list_all_iff)
      with \<open>is_AZ c\<close> show False using token_char_plain[of c] AZ_token_char by blast
    qed
  qed
qed


lemma search_gap_then_call:
  assumes ng: "\<not> has_candidate (u @ v)"
    and tok: "is_mode_token n" and ws: "list_all is_space w" and ar: "one_level False a"
    and bd: "\<not> word_opt (last_char p (u @ v))"
  shows "search allModesRegex False (last_char p u) (v @ n @ w @ ''('' @ a @ '')'' @ s)
           = Some (v, n @ w @ ''('' @ a @ '')'', [(2, a), (1, n)], Some CHR '')'', s)"
  using ng bd
proof (induction v arbitrary: u)
  case Nil
  then have "\<not> word_opt (last_char p u)" by simp
  from first_call[OF tok ws ar this, of s] obtain rs where
    "rmatch allModesRegex False (last_char p u, n @ w @ ''('' @ a @ '')'' @ s, [])
       = (Some CHR '')'', s, [(2, a), (1, n)]) # rs"
    by (auto simp: first_is_def)
  then show ?case by (subst search.simps) simp
next
  case (Cons x v)
  have F: "n @ w @ ''('' @ a @ '')'' @ s = [] \<or>
           (\<exists>n' w' X. n @ w @ ''('' @ a @ '')'' @ s = n' @ w' @ ''('' @ X \<and> is_mode_token n' \<and> list_all is_space w')"
    using tok ws by blast
  have lastw: "\<not> is_word (last (x # v))"
    using Cons.prems(2) by (simp add: last_char_def word_opt_def split: if_splits)
  have none: "rmatch allModesRegex False (last_char p u, (x # v) @ n @ w @ ''('' @ a @ '')'' @ s, []) = []"
    by (rule no_match_in_gap[OF Cons.prems(1) _ F]) (use lastw in simp_all)
  have "\<not> has_candidate ((u @ [x]) @ v)" using Cons.prems(1) by simp
  moreover have "\<not> word_opt (last_char p ((u @ [x]) @ v))" using Cons.prems(2) by simp
  ultimately have "search allModesRegex False (last_char p (u @ [x])) (v @ n @ w @ ''('' @ a @ '')'' @ s)
           = Some (v, n @ w @ ''('' @ a @ '')'', [(2, a), (1, n)], Some CHR '')'', s)"
    by (rule Cons.IH)
  moreover have "last_char p (u @ [x]) = Some x" by (simp add: last_char_def)
  ultimately show ?case using none
    by (subst search.simps) simp
qed

lemma search_gap_only:
  "\<not> has_candidate (u @ v) \<Longrightarrow> search allModesRegex False (last_char p u) v = None"
proof (induction v arbitrary: u)
  case Nil
  have "rmatch allModesRegex False (last_char p u, [], []) = []"
    by (rule no_match_without_rparen) simp
  then show ?case by (subst search.simps) simp
next
  case (Cons x v)
  have none: "rmatch allModesRegex False (last_char p u, (x # v) @ [], []) = []"
    by (rule no_match_in_gap[OF Cons.prems]) simp_all
  have "\<not> has_candidate ((u @ [x]) @ v)" using Cons.prems by simp
  then have "search allModesRegex False (last_char p (u @ [x])) v = None" by (rule Cons.IH)
  moreover have "last_char p (u @ [x]) = Some x" by (simp add: last_char_def)
  ultimately show ?case using none by (subst search.simps) simp
qed

text \<open>
  A text made of call sites. A site is the text before the call (the gap), the mode
  name, the white space after it and the argument text; a site is in order when its gap
  has no candidate, the call starts at a word boundary, the name is a mode token and the
  argument text has at most one level of parentheses.
\<close>

text \<open>
  A call site that stands outside any other call, with the text before it:
  \<open>Site gap name space args\<close> is the text \<open>gap name space ( args )\<close>. The gap has no
  candidate, the name is a mode token that does not follow a word character, and
  the argument text is one the pattern takes whole. \<open>site_output\<close> is the text the
  callback of \<open>replace\<close> leaves for it, \<open>U\<close> being the upper-cased active mode.
\<close>

datatype site = Site string string string string

fun call_text :: "site \<Rightarrow> string" where
  "call_text (Site gap n w a) = n @ w @ ''('' @ a @ '')''"

fun site_source :: "site \<Rightarrow> string" where
  "site_source (Site gap n w a) = gap @ call_text (Site gap n w a)"

fun site_ok :: "char option \<Rightarrow> site \<Rightarrow> bool" where
  "site_ok p (Site gap n w a) =
     (\<not> has_candidate gap \<and> \<not> word_opt (last_char p gap) \<and>
      is_mode_token n \<and> list_all is_space w \<and> one_level False a)"

fun sites_ok :: "char option \<Rightarrow> site list \<Rightarrow> bool" where
  "sites_ok p [] = True"
| "sites_ok p (s # ss) = (site_ok p s \<and> sites_ok (Some CHR '')'') ss)"

text \<open>What a site becomes under the upper-cased active mode \<open>U\<close>.\<close>

fun site_output :: "string \<Rightarrow> site \<Rightarrow> string" where
  "site_output U (Site gap n w a) =
     gap @ (if n = ''ALL'' \<or> n = U then ''console.log('' @ a @ '')'' else [])"

fun site_items :: "site \<Rightarrow> item list" where
  "site_items (Site gap n w a) = [Gap gap, Hit (n @ w @ ''('' @ a @ '')'') [(2, a), (1, n)]]"

text \<open>
  On a text made of such call sites and a rest without candidate, the scan finds
  exactly these call sites, with the name in group 1 and the argument text in group 2.
\<close>

lemma match_all_sites:
  "sites_ok p ss \<Longrightarrow> \<not> has_candidate tail \<Longrightarrow>
   match_all allModesRegex False p (concat (map site_source ss) @ tail)
     = concat (map site_items ss) @ [Gap tail]"
proof (induction ss arbitrary: p)
  case Nil
  have "search allModesRegex False (last_char p []) tail = None"
    by (rule search_gap_only) (use Nil in simp)
  then show ?case by (subst match_all.simps) (simp add: last_char_def)
next
  case (Cons s ss)
  obtain gap n w a where s: "s = Site gap n w a" by (cases s) auto
  from Cons.prems s have ok: "\<not> has_candidate gap" "\<not> word_opt (last_char p gap)"
    "is_mode_token n" "list_all is_space w" "one_level False a" "sites_ok (Some CHR '')'') ss"
    by simp_all
  have "search allModesRegex False (last_char p [])
          (gap @ n @ w @ ''('' @ a @ '')'' @ (concat (map site_source ss) @ tail))
        = Some (gap, n @ w @ ''('' @ a @ '')'', [(2, a), (1, n)], Some CHR '')'',
                concat (map site_source ss) @ tail)"
    by (rule search_gap_then_call) (use ok in simp_all)
  moreover have "match_all allModesRegex False (Some CHR '')'') (concat (map site_source ss) @ tail)
        = concat (map site_items ss) @ [Gap tail]"
    by (rule Cons.IH[OF ok(6) Cons.prems(2)])
  ultimately show ?case using s
    by (subst match_all.simps) (simp add: last_char_def)
qed

lemma output_site:
  "concat (map (item_output (replacer U)) (site_items s)) = site_output U s"
  by (cases s) (simp add: replacer_def interpolate_def Let_def)

lemma output_sites:
  "concat (map (item_output (replacer U)) (concat (map site_items ss)))
     = concat (map (site_output U) ss)"
  by (induction ss) (simp_all add: output_site del: site_items.simps site_output.simps)

lemma transformed_sites:
  assumes "sites_ok None ss" and "\<not> has_candidate tail"
  shows "transformed hi mode (concat (map site_source ss) @ tail)
           = concat (map (site_output (toUpperCase hi mode)) ss) @ tail"
  unfolding transformed_def replace_all_def match_all_sites[OF assms]
  by (simp add: output_sites)

lemma sites_ok_append:
  "sites_ok p (xs @ s # ys) \<longleftrightarrow>
     sites_ok p xs \<and> site_ok (if xs = [] then p else Some CHR '')'') s \<and> sites_ok (Some CHR '')'') ys"
  by (induction xs arbitrary: p) auto


lemma no_paren_no_candidate: "CHR ''('' \<notin> set t \<Longrightarrow> \<not> has_candidate t"
proof
  assume a: "CHR ''('' \<notin> set t" and "has_candidate t"
  then obtain u n w v where "t = u @ n @ w @ ''('' @ v"
    unfolding has_candidate_def by blast
  then have "set t = set (u @ n @ w @ ''('' @ v)" by simp
  then have "CHR ''('' \<in> set t" by simp
  with a show False by simp
qed

text \<open>
  Every match of the scan is a first result of the matcher at its position, the
  character before it being the last one of the text that precedes the match.
\<close>

lemma match_all_split:
  "match_all r ic p s = xs @ Hit m g # ys \<Longrightarrow>
     \<exists>p' rs. rmatch r ic (last_char p (concat (map item_source xs)),
                           m @ concat (map item_source ys), [])
               = (p', concat (map item_source ys), g) # rs"
proof (induction r ic p s arbitrary: xs rule: match_all.induct)
  case (1 r ic p s)
  show ?case
  proof (cases "search r ic p s")
    case None
    with "1.prems" have "[Gap s] = xs @ Hit m g # ys" by (subst (asm) match_all.simps) simp
    then show ?thesis by (cases xs) auto
  next
    case (Some f)
    obtain b m0 g0 p' a where f: "f = (b, m0, g0, p', a)" by (cases f) auto
    note sd = search_SomeD[OF Some[unfolded f]]
    define R where "R = (if m0 = [] then (case a of [] \<Rightarrow> [] | x # xs \<Rightarrow> Gap [x] # match_all r ic (Some x) xs)
           else match_all r ic p' a)"
    have srcR: "concat (map item_source R) = a"
      unfolding R_def by (simp add: match_all_source split: list.splits)
    from "1.prems" Some f have eq: "Gap b # Hit m0 g0 # R = xs @ Hit m g # ys"
      unfolding R_def by (subst (asm) match_all.simps) simp
    then obtain xs1 where x1: "xs = Gap b # xs1" "Hit m0 g0 # R = xs1 @ Hit m g # ys"
      by (cases xs) auto
    show ?thesis
    proof (cases xs1)
      case Nil
      with x1 have e: "m = m0" "g = g0" "ys = R" by auto
      from sd obtain rs where "rmatch r ic (last_char p b, m0 @ a, []) = (p', a, g0) # rs"
        by blast
      then show ?thesis using e x1 Nil srcR by auto
    next
      case (Cons y xs2)
      with x1 have y: "y = Hit m0 g0" "R = xs2 @ Hit m g # ys" by auto
      show ?thesis
      proof (cases "m0 = []")
        case True
        show ?thesis
        proof (cases a)
          case Nil
          with True y show ?thesis by (simp add: R_def)
        next
          case (Cons x as)
          with True y have r: "Gap [x] # match_all r ic (Some x) as = xs2 @ Hit m g # ys"
            by (simp add: R_def)
          then obtain xs3 where x3: "xs2 = Gap [x] # xs3"
            "match_all r ic (Some x) as = xs3 @ Hit m g # ys"
            by (cases xs2) auto
          from "1.IH"(1)[OF Some f[symmetric] refl refl refl True Cons x3(2)]
          obtain q rs where
            h: "rmatch r ic (last_char (Some x) (concat (map item_source xs3)),
                  m @ concat (map item_source ys), [])
                = (q, concat (map item_source ys), g) # rs" by blast
          have "last_char p (concat (map item_source xs))
                  = last_char (Some x) (concat (map item_source xs3))"
            unfolding x1(1) \<open>xs1 = y # xs2\<close> y(1) x3(1) True
            by (simp add: last_char_def)
          with h show ?thesis by auto
        qed
      next
        case False
        from y have r: "match_all r ic p' a = xs2 @ Hit m g # ys" using False by (simp add: R_def)
        from "1.IH"(2)[OF Some f[symmetric] refl refl refl False r]
        obtain q rs where
          h: "rmatch r ic (last_char p' (concat (map item_source xs2)),
                m @ concat (map item_source ys), [])
              = (q, concat (map item_source ys), g) # rs" by blast
        have "last_char p (concat (map item_source xs))
                = last_char (last_char p (b @ m0)) (concat (map item_source xs2))"
          unfolding x1(1) \<open>xs1 = y # xs2\<close> y(1)
          by (simp add: last_char_append)
        with h sd show ?thesis by auto
      qed
    qed
  qed
qed

lemma word_opt_last_char:
  "\<not> word_opt (last_char None u) \<Longrightarrow> u = [] \<or> \<not> is_word (last u)"
  by (auto simp: word_opt_def last_char_def)

section \<open>The rewriter on the scenario of the specification\<close>

text \<open>
  C3. On the text \<^verbatim>\<open>DEV("hello"); DEBUG("hi"); ALL("always");\<close> with the active mode
  \<open>dev\<close>, the rewritten text is \<^verbatim>\<open>console.log("hello"); ; console.log("always");\<close>:
  the \<open>DEV\<close> and \<open>ALL\<close> calls become \<open>console.log\<close> calls and the \<open>DEBUG\<close> call is
  deleted, its semicolon staying. The text has changed, so \<open>transform\<close> returns it (shown
  for the file \<open>/src/main.ts\<close>).
\<close>

theorem scenario_dev_debug_all:
  \<open>transformed hi ''dev'' ''DEV("hello"); DEBUG("hi"); ALL("always");''
     = ''console.log("hello"); ; console.log("always");''
   \<and> transformed hi ''dev'' ''DEV("hello"); DEBUG("hi"); ALL("always");''
     \<noteq> ''DEV("hello"); DEBUG("hi"); ALL("always");''
   \<and> transform hi ''dev'' ''DEV("hello"); DEBUG("hi"); ALL("always");'' ''/src/main.ts''
     = Some ''console.log("hello"); ; console.log("always");''\<close>
  by code_simp

section \<open>The registry on a missing artifact\<close>

text \<open>The default content, cut just before its declaration of \<open>ALL\<close>.\<close>

definition default_head :: string where
  "default_head =
     ''// Mode-based logging helper functions that will be transformed by the build process'' @ nl @
     ''// These functions are declared globally and can be used anywhere without imports'' @ nl @
     nl @
     ''declare global {'' @ nl @ ''  ''"

definition default_tail :: string where
  "default_tail =
     ''function ALL(message: string): void;'' @ nl @
     ''}'' @ nl @
     nl @
     ''// Make the functions available at runtime (though they'll be transformed)'' @ nl @
     ''(globalThis as any).ALL = function(_message: string) { /* no-op */ };'' @ nl @
     nl @
     ''export {}; // Make this a module'' @ nl"

lemma default_content_split: "default_content = default_head @ default_tail"
  by (simp add: default_content_def default_head_def default_tail_def)

lemma default_declares_ALL: "test (globalDeclRegex ''ALL'') True default_content"
proof -
  have "rmatch (globalDeclRegex ''ALL'') True (last_char None default_head, default_tail, []) \<noteq> []"
    by code_simp
  then show ?thesis
    unfolding test_def default_content_split by (rule search_finds)
qed

lemma default_passes_all_check: "test allGlobalRegex True default_content"
proof -
  have "rmatch allGlobalRegex True (last_char None default_head, default_tail, []) \<noteq> []"
    by code_simp
  then show ?thesis
    unfolding test_def default_content_split by (rule search_finds)
qed

text \<open>
  C10. When \<open>src/debug.ts\<close> does not exist and the mode upper-cases to \<open>ALL\<close>, the default
  content passes the check for the mode's declaration and the check for \<open>ALL\<close>, and the
  call returns with the file still absent and nothing printed: no write took place,
  whether or not the file could have been written.
\<close>

theorem ensure_ALL_on_missing_file:
  assumes "toUpperCase hi mode = ''ALL''"
  shows "test (globalDeclRegex (toUpperCase hi mode)) True default_content
       \<and> test allGlobalRegex True default_content
       \<and> ensureModeFunction hi mode \<lparr>debug_file = None, writable = wr, console = out\<rparr>
           = Inr \<lparr>debug_file = None, writable = wr, console = out\<rparr>"
  using assms default_declares_ALL default_passes_all_check
  by (simp add: ensureModeFunction_def readFileSync_def Let_def)

theorem ensure_ALL_on_missing_file_witness:
  "\<forall>hi. toUpperCase hi ''all'' = ''ALL''
      \<and> ensureModeFunction hi ''all'' \<lparr>debug_file = None, writable = False, console = []\<rparr>
          = Inr \<lparr>debug_file = None, writable = False, console = []\<rparr>"
proof
  fix hi
  have h: "toUpperCase hi ''all'' = ''ALL''" by code_simp
  show "toUpperCase hi ''all'' = ''ALL''
      \<and> ensureModeFunction hi ''all'' \<lparr>debug_file = None, writable = False, console = []\<rparr>
          = Inr \<lparr>debug_file = None, writable = False, console = []\<rparr>"
    using h ensure_ALL_on_missing_file [OF h, of False "[]"] by simp
qed

section \<open>The registry on an artifact without a declaration block\<close>

text \<open>
  A \<open>debug.ts\<close> written by hand, which declares \<open>DEV\<close> as an ordinary function, has no
  \<open>declare global\<close> block and does not declare \<open>ALL\<close>.
\<close>

definition bare_artifact :: string where
  "bare_artifact = ''function DEV(message: string): void {}'' @ nl"

text \<open>
  C4. The claim asks that \<open>ALL\<close> is declared in the artifact after any call. On
  \<open>bare_artifact\<close> with the mode \<open>dev\<close> the second part of \<open>ensureModeFunction\<close> finds
  no block to extend and, unlike the first part, creates none: the file is written back
  as it was, the message that \<open>ALL\<close> was added is printed, and \<open>ALL\<close> is still not
  declared.
\<close>

theorem ensure_leaves_ALL_undeclared:
  "ensureModeFunction hi ''dev'' \<lparr>debug_file = Some bare_artifact, writable = True, console = []\<rparr>
     = Inr \<lparr>debug_file = Some bare_artifact, writable = True,
             console = [''Added ALL global function to debug.ts'']\<rparr>
   \<and> \<not> declared hi bare_artifact ''ALL''"
  by code_simp

text \<open>The same artifact with the marker that closes a module.\<close>

definition module_artifact :: string where
  "module_artifact = ''function DEV(message: string): void {}'' @ nl @ ''export {};'' @ nl"

definition module_artifact_once :: string where
  "module_artifact_once =
     ''function DEV(message: string): void {}'' @ nl @
     ''(globalThis as any).ALL = function(_message: string) { /* no-op */ };'' @ nl @
     ''export {};'' @ nl"

definition module_artifact_twice :: string where
  "module_artifact_twice =
     ''function DEV(message: string): void {}'' @ nl @
     ''(globalThis as any).ALL = function(_message: string) { /* no-op */ };'' @ nl @
     ''(globalThis as any).ALL = function(_message: string) { /* no-op */ };'' @ nl @
     ''export {};'' @ nl"

text \<open>
  C5. The claim asks that a second call with the same mode changes nothing. On
  \<open>module_artifact\<close> with the mode \<open>dev\<close> the first call inserts the stub of \<open>ALL\<close>
  but no declaration of it, so the second call finds \<open>ALL\<close> undeclared again and
  inserts a second, duplicate stub.
\<close>

theorem ensure_twice_duplicates_stub:
  "ensureModeFunction hi ''dev'' \<lparr>debug_file = Some module_artifact, writable = True, console = []\<rparr>
     = Inr \<lparr>debug_file = Some module_artifact_once, writable = True,
             console = [''Added ALL global function to debug.ts'']\<rparr>
   \<and> ensureModeFunction hi ''dev''
         \<lparr>debug_file = Some module_artifact_once, writable = True,
          console = [''Added ALL global function to debug.ts'']\<rparr>
     = Inr \<lparr>debug_file = Some module_artifact_twice, writable = True,
             console = [''Added ALL global function to debug.ts'',
                        ''Added ALL global function to debug.ts'']\<rparr>
   \<and> module_artifact_twice \<noteq> module_artifact_once"
  by code_simp

section \<open>Call sites of the rewriter\<close>

text \<open>
  C1 as stated fails for call sites within the argument list of another call: the
  scan goes from left to right and a match swallows its argument text. With the
  active mode \<open>dev\<close>, the call \<^verbatim>\<open>DEV(2)\<close> in \<^verbatim>\<open>DEBUG(DEV(2));\<close> is deleted with the call
  around it although its name is the active mode, and the call \<^verbatim>\<open>DEBUG(1)\<close> in
  \<^verbatim>\<open>DEV(DEBUG(1));\<close> stays, as argument text, although its name is neither the active
  mode nor \<open>ALL\<close>.
\<close>

theorem nested_mode_call_is_not_a_match:
  "\<forall>hi. transformed hi ''dev'' ''DEBUG(DEV(2));'' = '';''
      \<and> transformed hi ''dev'' ''DEV(DEBUG(1));'' = ''console.log(DEBUG(1));''"
proof
  fix hi
  show "transformed hi ''dev'' ''DEBUG(DEV(2));'' = '';''
      \<and> transformed hi ''dev'' ''DEV(DEBUG(1));'' = ''console.log(DEBUG(1));''"
    by code_simp
qed

text \<open>
  C1, amended to the call sites that stand outside any other call. The text is a
  sequence of call sites (a mode token that does not follow a word character, white
  space, \<open>(\<close>, an argument text with parentheses nested at most one level, \<open>)\<close>),
  each after a gap without candidate, and a rest without candidate. For each of
  these call sites and every upper-casing table: if the name equals the active
  mode after both are upper-cased, the output has \<open>console.log(args)\<close> in its place,
  with the argument text unchanged; if it does not and the name is not \<open>ALL\<close>, the
  output has nothing in its place. The gaps and the rest are copied.
\<close>

theorem top_level_mode_call_kept_or_deleted:
  assumes "sites_ok None (xs @ Site gap n w a # ys)" and "\<not> has_candidate tail"
  shows "(toUpperCase hi n = toUpperCase hi mode \<longrightarrow>
            transformed hi mode
              (concat (map site_source xs) @ (gap @ n @ w @ ''('' @ a @ '')'') @
               concat (map site_source ys) @ tail)
            = concat (map (site_output (toUpperCase hi mode)) xs) @
              (gap @ ''console.log('' @ a @ '')'') @
              concat (map (site_output (toUpperCase hi mode)) ys) @ tail)
       \<and> (toUpperCase hi n \<noteq> toUpperCase hi mode \<and> n \<noteq> ''ALL'' \<longrightarrow>
            transformed hi mode
              (concat (map site_source xs) @ (gap @ n @ w @ ''('' @ a @ '')'') @
               concat (map site_source ys) @ tail)
            = concat (map (site_output (toUpperCase hi mode)) xs) @
              gap @
              concat (map (site_output (toUpperCase hi mode)) ys) @ tail)"
proof -
  from assms(1) have "is_mode_token n" by (simp add: sites_ok_append)
  then have up: "toUpperCase hi n = n" by (rule toUpperCase_token)
  define src where "src = concat (map site_source xs) @ (gap @ n @ w @ ''('' @ a @ '')'') @
               concat (map site_source ys) @ tail"
  define out where "out = (\<lambda>b. concat (map (site_output (toUpperCase hi mode)) xs) @
              (gap @ (if b then ''console.log('' @ a @ '')'' else [])) @
              concat (map (site_output (toUpperCase hi mode)) ys) @ tail)"
  have T: "transformed hi mode src = out (n = ''ALL'' \<or> n = toUpperCase hi mode)"
    using transformed_sites[OF assms, of hi mode] unfolding src_def out_def by simp
  have "(toUpperCase hi n = toUpperCase hi mode \<longrightarrow> transformed hi mode src = out True)
      \<and> (toUpperCase hi n \<noteq> toUpperCase hi mode \<and> n \<noteq> ''ALL'' \<longrightarrow>
           transformed hi mode src = out False)"
    unfolding up T by simp
  then show ?thesis unfolding src_def out_def by simp
qed

theorem top_level_mode_call_kept_or_deleted_witness:
  "(sites_ok None ([] @ Site ''x = 1; '' ''SS'' [] ''a, f(2)'' # [])
    \<and> \<not> has_candidate '';''
    \<and> toUpperCase (\<lambda>c. if c = CHR 0xDF then ''SS'' else [c]) ''SS''
        = toUpperCase (\<lambda>c. if c = CHR 0xDF then ''SS'' else [c]) [CHR 0xDF]
    \<and> transformed (\<lambda>c. if c = CHR 0xDF then ''SS'' else [c]) [CHR 0xDF] ''x = 1; SS(a, f(2));''
        = ''x = 1; console.log(a, f(2));'')
   \<and> (sites_ok None ([Site [] ''DEV_2'' '' '' ''1''] @ Site ''; '' ''DEBUG'' [] ''2'' # [])
    \<and> \<not> has_candidate '';''
    \<and> (\<forall>hi. toUpperCase hi ''DEBUG'' \<noteq> toUpperCase hi ''dev_2'' \<and> ''DEBUG'' \<noteq> ''ALL''
          \<and> transformed hi ''dev_2'' ''DEV_2 (1); DEBUG(2);'' = ''console.log(1); ;''))"
proof -
  let ?hi = "\<lambda>c. if c = CHR 0xDF then ''SS'' else [c]"
  have t: "is_mode_token ''SS''" "is_mode_token ''DEV_2''" "is_mode_token ''DEBUG''" by code_simp+
  have a: "one_level False ''a, f(2)''" "one_level False ''1''" "one_level False ''2''"
    by simp_all
  have s: "list_all is_space '' ''" by code_simp
  have g: "\<not> has_candidate []" "\<not> has_candidate ''; ''" "\<not> has_candidate '';''"
    "\<not> has_candidate ''x = 1; ''"
    by (rule no_paren_no_candidate, simp)+
  have w: "\<not> word_opt None" "\<not> word_opt (Some CHR '' '')"
    by (simp add: word_opt_def, code_simp)
  have h1: "sites_ok None ([] @ Site ''x = 1; '' ''SS'' [] ''a, f(2)'' # [])"
    using t a g w by (simp add: last_char_def)
  have u1: "toUpperCase ?hi ''SS'' = toUpperCase ?hi [CHR 0xDF]" by code_simp
  have A: "transformed ?hi [CHR 0xDF] ''x = 1; SS(a, f(2));'' = ''x = 1; console.log(a, f(2));''"
    using top_level_mode_call_kept_or_deleted[OF h1 g(3), of ?hi "[CHR 0xDF]"] u1 by simp
  have h2: "sites_ok None ([Site [] ''DEV_2'' '' '' ''1''] @ Site ''; '' ''DEBUG'' [] ''2'' # [])"
    using t a s g w by (simp add: last_char_def)
  have B: "toUpperCase hi ''DEBUG'' \<noteq> toUpperCase hi ''dev_2'' \<and> ''DEBUG'' \<noteq> ''ALL''
          \<and> transformed hi ''dev_2'' ''DEV_2 (1); DEBUG(2);'' = ''console.log(1); ;''" for hi
  proof -
    have u: "toUpperCase hi ''dev_2'' = ''DEV_2''" "toUpperCase hi ''DEBUG'' = ''DEBUG''"
      by code_simp+
    show ?thesis
      using top_level_mode_call_kept_or_deleted[OF h2 g(3), of hi "''dev_2''"]
      by (simp add: u)
  qed
  show ?thesis using h1 h2 g(3) u1 A B by blast
qed

text \<open>
  C2 as stated fails for a call of \<open>ALL\<close> within the argument list of another call: it
  is deleted with the call around it. With the active mode \<open>prod\<close>,
  \<^verbatim>\<open>DEBUG(ALL(1));\<close> becomes \<^verbatim>\<open>;\<close>.
\<close>

theorem nested_ALL_call_is_deleted:
  "\<forall>hi. transformed hi ''prod'' ''DEBUG(ALL(1));'' = '';''
      \<and> transform hi ''prod'' ''DEBUG(ALL(1));'' ''/src/main.ts'' = Some '';''"
proof
  fix hi
  show "transformed hi ''prod'' ''DEBUG(ALL(1));'' = '';''
      \<and> transform hi ''prod'' ''DEBUG(ALL(1));'' ''/src/main.ts'' = Some '';''"
    by code_simp
qed

text \<open>
  C2, amended to the call sites that stand outside any other call. In a text made
  of such call sites, each after a gap without candidate, and a rest without
  candidate, every call site whose name is \<open>ALL\<close> becomes \<open>console.log(args)\<close> with
  the argument text unchanged, for every active mode and every upper-casing table:
  it is found by the scan and it is not deleted.
\<close>

theorem top_level_ALL_call_becomes_console_log:
  assumes "sites_ok None (xs @ Site gap ''ALL'' w a # ys)" and "\<not> has_candidate tail"
  shows "transformed hi mode
           (concat (map site_source xs) @ (gap @ ''ALL'' @ w @ ''('' @ a @ '')'') @
            concat (map site_source ys) @ tail)
         = concat (map (site_output (toUpperCase hi mode)) xs) @
           (gap @ ''console.log('' @ a @ '')'') @
           concat (map (site_output (toUpperCase hi mode)) ys) @ tail"
  using transformed_sites[OF assms, of hi mode] by simp

theorem top_level_ALL_call_becomes_console_log_witness:
  "sites_ok None ([Site [] ''DEBUG_2'' [] ''ALL(0)''] @ Site ''; '' ''ALL'' '' '' ''1, f(2)'' # [])
   \<and> \<not> has_candidate '';''
   \<and> (\<forall>hi. transformed hi ''prod'' ''DEBUG_2(ALL(0)); ALL (1, f(2));'' = ''; console.log(1, f(2));'')"
proof -
  have t: "is_mode_token ''DEBUG_2''" "is_mode_token ''ALL''" by code_simp+
  have a: "one_level False ''ALL(0)''" "one_level False ''1, f(2)''" by simp_all
  have s: "list_all is_space '' ''" by code_simp
  have g: "\<not> has_candidate []" "\<not> has_candidate ''; ''" "\<not> has_candidate '';''"
    by (rule no_paren_no_candidate, simp)+
  have w: "\<not> word_opt None" "\<not> word_opt (Some CHR '' '')"
    by (simp add: word_opt_def, code_simp)
  have h1: "sites_ok None ([Site [] ''DEBUG_2'' [] ''ALL(0)''] @ Site ''; '' ''ALL'' '' '' ''1, f(2)'' # [])"
    using t a s g w by (simp add: last_char_def)
  have "transformed hi ''prod'' ''DEBUG_2(ALL(0)); ALL (1, f(2));'' = ''; console.log(1, f(2));''" for hi
  proof -
    have u: "toUpperCase hi ''prod'' = ''PROD''" by code_simp
    show ?thesis
      using top_level_ALL_call_becomes_console_log[OF h1 g(3), of hi "''prod''"]
      by (simp add: u)
  qed
  then show ?thesis using h1 g(3) by blast
qed

text \<open>
  C7 as stated fails: the pattern has \<^verbatim>\<open>\s*\<close> between the mode name and the
  parenthesis, so a name separated from \<open>(\<close> by white space is a call site and is
  rewritten.
\<close>

theorem spaced_call_is_rewritten:
  "\<forall>hi. transformed hi ''dev'' ''DEV (1);'' = ''console.log(1);''
      \<and> transform hi ''dev'' ''DEV (1);'' ''/src/main.ts'' = Some ''console.log(1);''"
proof
  fix hi
  show "transformed hi ''dev'' ''DEV (1);'' = ''console.log(1);''
      \<and> transform hi ''dev'' ''DEV (1);'' ''/src/main.ts'' = Some ''console.log(1);''"
    by code_simp
qed

text \<open>
  C7, amended. Every call site the scan finds is a mode token (first character in
  \<open>A-Z\<close>, then characters in \<open>A-Z\<close>, \<open>0-9\<close> or underscore) that starts the text or
  follows a character that is no word character, followed by white space only
  (possibly none), followed by \<open>(\<close>, the argument text and \<open>)\<close>: a name separated
  from \<open>(\<close> by anything but white space is not recognised, and neither is the end of
  a longer identifier.
\<close>

theorem call_site_is_token_space_paren:
  assumes "match_all allModesRegex False None code = xs @ Hit m g # ys"
  shows "\<exists>name ws args.
           is_mode_token name \<and> list_all is_space ws \<and>
           m = name @ ws @ ''('' @ args @ '')'' \<and>
           code = concat (map item_source xs) @ (name @ ws @ ''('' @ args @ '')'') @
                  concat (map item_source ys) \<and>
           (concat (map item_source xs) = [] \<or> \<not> is_word (last (concat (map item_source xs))))"
proof -
  let ?b = "concat (map item_source xs)" and ?a = "concat (map item_source ys)"
  from match_all_split[OF assms] obtain p' rs where
    "rmatch allModesRegex False (last_char None ?b, m @ ?a, []) = (p', ?a, g) # rs"
    by blast
  then have "(p', ?a, g) \<in> set (rmatch allModesRegex False (last_char None ?b, m @ ?a, []))"
    by simp
  from call_shape[OF this] obtain name ws args where
    sh: "m @ ?a = name @ ws @ ''('' @ args @ '')'' @ ?a" "is_mode_token name"
        "list_all is_space ws" "at_word_boundary (last_char None ?b) (m @ ?a)"
    by auto
  from sh(1) have m: "m = name @ ws @ ''('' @ args @ '')''" by simp
  have "at_word_boundary (last_char None ?b) (name @ (ws @ ''('' @ args @ '')'' @ ?a))"
    using sh(4) unfolding sh(1) by simp
  then have "\<not> word_opt (last_char None ?b)"
    unfolding boundary_before_token[OF sh(2)] .
  then have bd: "?b = [] \<or> \<not> is_word (last ?b)" by (rule word_opt_last_char)
  have "code = ?b @ m @ ?a"
    using match_all_source[of allModesRegex False None code] unfolding assms by simp
  then have "is_mode_token name \<and> list_all is_space ws \<and>
           m = name @ ws @ ''('' @ args @ '')'' \<and>
           code = ?b @ (name @ ws @ ''('' @ args @ '')'') @ ?a \<and>
           (?b = [] \<or> \<not> is_word (last ?b))"
    using sh(2,3) m bd by simp
  then show ?thesis by blast
qed

theorem call_site_is_token_space_paren_witness:
  "match_all allModesRegex False None ''xDEV(0) DEV_2 (1);''
      = [Gap ''xDEV(0) ''] @ Hit ''DEV_2 (1)'' [(2, ''1''), (1, ''DEV_2'')] # [Gap '';'']
   \<and> (\<exists>name ws args.
           is_mode_token name \<and> list_all is_space ws \<and>
           ''DEV_2 (1)'' = name @ ws @ ''('' @ args @ '')'' \<and>
           ''xDEV(0) DEV_2 (1);'' = ''xDEV(0) '' @ (name @ ws @ ''('' @ args @ '')'') @ '';'' \<and>
           \<not> is_word (last ''xDEV(0) ''))"
proof -
  have a1: "match_all allModesRegex False None ''xDEV(0) DEV_2 (1);''
      = [Gap ''xDEV(0) ''] @ Hit ''DEV_2 (1)'' [(2, ''1''), (1, ''DEV_2'')] # [Gap '';'']"
    by code_simp
  show ?thesis using a1 call_site_is_token_space_paren[OF a1] by simp
qed




section \<open>Files the rewriter leaves alone\<close>

text \<open>
  C9. For a file whose path does not end in \<open>.ts\<close>, \<open>.tsx\<close>, \<open>.js\<close> or \<open>.jsx\<close>, and
  for a file whose path contains \<open>debug.ts\<close> (the declarations artifact), \<open>transform\<close>
  returns nothing, whatever the code and the active mode.
\<close>

theorem transform_skips_other_files:
  assumes "\<not> (suffix ''.ts'' fid \<or> suffix ''.tsx'' fid \<or> suffix ''.js'' fid \<or> suffix ''.jsx'' fid)
           \<or> sublist ''debug.ts'' fid"
  shows "transform hi mode code fid = None"
  using assms test_ext_suffix[of fid] sublist_str_includes[of "''debug.ts''" fid]
  by (auto simp: transform_def)

theorem transform_skips_other_files_witness:
  "(\<not> (suffix ''.ts'' ''style.css'' \<or> suffix ''.tsx'' ''style.css'' \<or> suffix ''.js'' ''style.css''
        \<or> suffix ''.jsx'' ''style.css'')
    \<and> (\<forall>hi. transform hi ''dev'' ''DEV(1)'' ''style.css'' = None))
   \<and> (sublist ''debug.ts'' ''/app/src/debug.ts''
    \<and> (\<forall>hi. transform hi ''dev'' ''DEV(1)'' ''/app/src/debug.ts'' = None))"
proof -
  have a: "\<not> (suffix ''.ts'' ''style.css'' \<or> suffix ''.tsx'' ''style.css'' \<or> suffix ''.js'' ''style.css''
        \<or> suffix ''.jsx'' ''style.css'')"
    by (simp add: suffix_to_prefix)
  have b: "sublist ''debug.ts'' ''/app/src/debug.ts''"
    unfolding sublist_def by (rule exI[of _ "''/app/src/''"], rule exI[of _ "[]"]) simp
  have A: "transform hi ''dev'' ''DEV(1)'' ''style.css'' = None" for hi
    using transform_skips_other_files[where fid = "''style.css''" and hi = hi
        and mode = "''dev''" and code = "''DEV(1)''"] a by blast
  have B: "transform hi ''dev'' ''DEV(1)'' ''/app/src/debug.ts'' = None" for hi
    using transform_skips_other_files[where fid = "''/app/src/debug.ts''" and hi = hi
        and mode = "''dev''" and code = "''DEV(1)''"] b by blast
  show ?thesis using a b A B by blast
qed

section \<open>Candidates the pattern cannot close\<close>




end
